theory Spec2Isabelle
  imports Complex_Main "HOL-Library.Log_Nat"
begin

section \<open>JavaScript numbers\<close>

text \<open>
  The bot computes with JavaScript Numbers: IEEE 754 binary64 values. A Number is NaN, an
  infinity with its sign, or a finite value given by its sign bit and its magnitude, an
  exact rational. Both zeros exist (\<open>Finite False 0\<close> and \<open>Finite True 0\<close>). Every
  arithmetic operation computes the exact rational result and rounds it to the nearest
  binary64 value, ties to the even significand, as ECMAScript prescribes.
\<close>

datatype jsnum = NaN | Infinity bool | Finite bool rat

text \<open>
  \<open>ilog2 q\<close> is the binary exponent of a positive rational: the integer \<open>e\<close> with
  \<open>2^e \<le> q < 2^(e+1)\<close>, computed from the bit lengths of numerator and denominator.
\<close>

definition ilog2 :: "rat \<Rightarrow> int" where
  "ilog2 q = (case quotient_of q of (a, b) \<Rightarrow>
     (let d = bitlen a - bitlen b in if 2 powi d \<le> q then d else d - 1))"

text \<open>Rounding a rational to the nearest integer, ties to the even one.\<close>

definition round_half_even :: "rat \<Rightarrow> int" where
  "round_half_even x =
     (let f = \<lfloor>x\<rfloor>; d = x - of_int f
      in if d < 1 / 2 then f
         else if 1 / 2 < d then f + 1
         else if even f then f else f + 1)"

text \<open>
  \<open>round_double s q\<close> rounds the magnitude \<open>q \<ge> 0\<close> with sign bit \<open>s\<close> to binary64:
  53 significant bits for normal values (exponent at least \<open>-1022\<close>), a fixed spacing of
  \<open>2^-1074\<close> below, and overflow to infinity from \<open>2^1024\<close> on.
\<close>

definition round_double :: "bool \<Rightarrow> rat \<Rightarrow> jsnum" where
  "round_double s q =
     (if q = 0 then Finite s 0
      else
        (let e = max (ilog2 q) (- 1022);
             u = 2 powi (e - 52);
             r = of_int (round_half_even (q / u)) * u
         in if 2 ^ 1024 \<le> r then Infinity s else Finite s r))"

text \<open>A well-formed Number: a finite magnitude is non-negative and is a binary64 value.\<close>

definition is_double :: "jsnum \<Rightarrow> bool" where
  "is_double x =
     (case x of Finite s m \<Rightarrow> 0 \<le> m \<and> round_double s m = Finite s m | _ \<Rightarrow> True)"

definition num :: "int \<Rightarrow> jsnum" where
  \<comment> \<open>an integer literal of the source, such as \<open>100\<close>, \<open>1\<close> or \<open>0\<close>\<close>
  "num i = round_double (i < 0) (of_int \<bar>i\<bar>)"

definition signed_val :: "bool \<Rightarrow> rat \<Rightarrow> rat" where
  "signed_val s m = (if s then - m else m)"

fun js_add :: "jsnum \<Rightarrow> jsnum \<Rightarrow> jsnum" where
  "js_add NaN y = NaN"
| "js_add x NaN = NaN"
| "js_add (Infinity s) (Infinity t) = (if s = t then Infinity s else NaN)"
| "js_add (Infinity s) (Finite t m) = Infinity s"
| "js_add (Finite s m) (Infinity t) = Infinity t"
| "js_add (Finite s m) (Finite t n) =
     (let v = signed_val s m + signed_val t n
      in if v = 0 then Finite (s \<and> t) 0 else round_double (v < 0) \<bar>v\<bar>)"

fun js_mul :: "jsnum \<Rightarrow> jsnum \<Rightarrow> jsnum" where
  "js_mul NaN y = NaN"
| "js_mul x NaN = NaN"
| "js_mul (Infinity s) (Infinity t) = Infinity (s \<noteq> t)"
| "js_mul (Infinity s) (Finite t m) = (if m = 0 then NaN else Infinity (s \<noteq> t))"
| "js_mul (Finite s m) (Infinity t) = (if m = 0 then NaN else Infinity (s \<noteq> t))"
| "js_mul (Finite s m) (Finite t n) = round_double (s \<noteq> t) (m * n)"

fun js_div :: "jsnum \<Rightarrow> jsnum \<Rightarrow> jsnum" where
  "js_div NaN y = NaN"
| "js_div x NaN = NaN"
| "js_div (Infinity s) (Infinity t) = NaN"
| "js_div (Infinity s) (Finite t m) = Infinity (s \<noteq> t)"
| "js_div (Finite s m) (Infinity t) = Finite (s \<noteq> t) 0"
| "js_div (Finite s m) (Finite t n) =
     (if n = 0 then (if m = 0 then NaN else Infinity (s \<noteq> t))
      else round_double (s \<noteq> t) (m / n))"

fun js_isNaN :: "jsnum \<Rightarrow> bool" where
  \<comment> \<open>\<open>Number.isNaN\<close>\<close>
  "js_isNaN NaN = True"
| "js_isNaN x = False"

fun js_isFinite :: "jsnum \<Rightarrow> bool" where
  "js_isFinite (Finite s m) = True"
| "js_isFinite x = False"

fun js_eq :: "jsnum \<Rightarrow> jsnum \<Rightarrow> bool" where
  \<comment> \<open>the comparison \<open>==\<close> on Numbers: NaN equals nothing, the two zeros are equal\<close>
  "js_eq (Finite s m) (Finite t n) = (m = n \<and> (s = t \<or> m = 0))"
| "js_eq (Infinity s) (Infinity t) = (s = t)"
| "js_eq x y = False"


section \<open>JavaScript strings\<close>

text \<open>
  A string is its sequence of UTF-16 code units. \<open>ascii\<close> writes the code units of an
  ASCII literal.
\<close>

type_synonym jsstring = "nat list"

definition ascii :: "string \<Rightarrow> jsstring" where
  "ascii s = map of_char s"

definition is_ws :: "nat \<Rightarrow> bool" where
  \<comment> \<open>white space and line terminators: what \<open>trim\<close>, \<open>\s\<close> and \<open>Number\<close> skip\<close>
  "is_ws c \<longleftrightarrow>
     c \<in> set [9, 10, 11, 12, 13, 32, 160, 5760, 8232, 8233, 8239, 8287, 12288, 65279]
     \<or> (8192 \<le> c \<and> c \<le> 8202)"

definition trim :: "jsstring \<Rightarrow> jsstring" where
  "trim s = rev (dropWhile is_ws (rev (dropWhile is_ws s)))"

text \<open>
  \<open>split_ws\<close> is \<open>s.split(/\s+/)\<close>: the pieces between maximal runs of white space,
  with an empty piece before a leading run and after a trailing one, and the one-element
  list of the empty string for the empty string. The accumulator holds the current
  piece reversed; the flag says that the previous code unit was white space.
\<close>

fun split_ws_from :: "jsstring \<Rightarrow> jsstring \<Rightarrow> bool \<Rightarrow> jsstring list" where
  "split_ws_from [] cur insep = [rev cur]"
| "split_ws_from (c # cs) cur insep =
     (if is_ws c then
        (if insep then split_ws_from cs [] True else rev cur # split_ws_from cs [] True)
      else split_ws_from cs (c # cur) False)"

definition split_ws :: "jsstring \<Rightarrow> jsstring list" where
  "split_ws s = split_ws_from s [] False"

fun replace_first :: "nat \<Rightarrow> nat \<Rightarrow> jsstring \<Rightarrow> jsstring" where
  \<comment> \<open>\<open>s.replace(a, b)\<close> for one-character strings: only the first occurrence\<close>
  "replace_first a b [] = []"
| "replace_first a b (c # cs) = (if c = a then b # cs else c # replace_first a b cs)"

definition starts_with_slash :: "jsstring \<Rightarrow> bool" where
  \<comment> \<open>\<open>s.startsWith('/')\<close>\<close>
  "starts_with_slash s = (case s of [] \<Rightarrow> False | c # cs \<Rightarrow> c = 47)"

section \<open>Converting strings to numbers\<close>

text \<open>
  \<open>to_number\<close> is ECMAScript's StringToNumber, which both \<open>Number(s)\<close> and unary
  plus apply to a string: white space is trimmed; the empty string is \<open>0\<close>; then the
  text is a binary, octal or hexadecimal integer with its prefix, or an optionally signed
  \<open>Infinity\<close>, or an optionally signed decimal literal with an optional fraction and an
  optional exponent; anything else is NaN. The exact value of the literal is rounded to
  binary64, however many digits it has.
\<close>

definition is_digit :: "nat \<Rightarrow> bool" where
  "is_digit c \<longleftrightarrow> 48 \<le> c \<and> c \<le> 57"

definition digits_val :: "jsstring \<Rightarrow> nat" where
  "digits_val ds = foldl (\<lambda>a c. 10 * a + (c - 48)) 0 ds"

definition radix_digit :: "nat \<Rightarrow> nat \<Rightarrow> nat option" where
  "radix_digit b c =
     (let v = (if 48 \<le> c \<and> c \<le> 57 then Some (c - 48)
               else if 97 \<le> c \<and> c \<le> 102 then Some (c - 87)
               else if 65 \<le> c \<and> c \<le> 70 then Some (c - 55)
               else None)
      in case v of None \<Rightarrow> None | Some d \<Rightarrow> if d < b then Some d else None)"

fun radix_val :: "nat \<Rightarrow> nat \<Rightarrow> jsstring \<Rightarrow> nat option" where
  "radix_val b a [] = Some a"
| "radix_val b a (c # cs) =
     (case radix_digit b c of None \<Rightarrow> None | Some d \<Rightarrow> radix_val b (b * a + d) cs)"

definition parse_nondecimal :: "jsstring \<Rightarrow> nat option" where
  \<comment> \<open>\<open>0x\<close>, \<open>0o\<close> and \<open>0b\<close> literals (prefix letter in either case), at least one digit\<close>
  "parse_nondecimal s =
     (case s of
        z # p # d # ds \<Rightarrow>
          if z \<noteq> 48 then None
          else if p = 120 \<or> p = 88 then radix_val 16 0 (d # ds)
          else if p = 111 \<or> p = 79 then radix_val 8 0 (d # ds)
          else if p = 98 \<or> p = 66 then radix_val 2 0 (d # ds)
          else None
      | _ \<Rightarrow> None)"

definition parse_exponent :: "jsstring \<Rightarrow> int option" where
  \<comment> \<open>what follows the digits of a decimal literal: nothing, or \<open>e\<close>/\<open>E\<close> and a signed integer\<close>
  "parse_exponent r =
     (case r of
        [] \<Rightarrow> Some 0
      | c # r' \<Rightarrow>
          if c = 101 \<or> c = 69 then
            (let neg = (case r' of [] \<Rightarrow> False | d # r'' \<Rightarrow> d = 45);
                 ds = (case r' of [] \<Rightarrow> [] | d # r'' \<Rightarrow> if d = 45 \<or> d = 43 then r'' else r')
             in if ds \<noteq> [] \<and> list_all is_digit ds
                then Some (if neg then - int (digits_val ds) else int (digits_val ds))
                else None)
          else None)"

definition parse_unsigned_decimal :: "jsstring \<Rightarrow> rat option" where
  "parse_unsigned_decimal s =
     (let ip = takeWhile is_digit s;
          r1 = dropWhile is_digit s;
          dot = (case r1 of [] \<Rightarrow> False | c # r' \<Rightarrow> c = 46);
          fp = (if dot then takeWhile is_digit (tl r1) else []);
          r2 = (if dot then dropWhile is_digit (tl r1) else r1)
      in if ip = [] \<and> fp = [] then None
         else (case parse_exponent r2 of
                 None \<Rightarrow> None
               | Some e \<Rightarrow> Some (of_nat (digits_val (ip @ fp)) * 10 powi (e - int (length fp)))))"

definition parse_decimal :: "jsstring \<Rightarrow> jsnum option" where
  "parse_decimal s =
     (let neg = (case s of [] \<Rightarrow> False | c # r \<Rightarrow> c = 45);
          body = (case s of [] \<Rightarrow> [] | c # r \<Rightarrow> if c = 45 \<or> c = 43 then r else s)
      in if body = ascii ''Infinity'' then Some (Infinity neg)
         else map_option (round_double neg) (parse_unsigned_decimal body))"

definition to_number :: "jsstring \<Rightarrow> jsnum" where
  "to_number s =
     (let t = trim s
      in if t = [] then Finite False 0
         else (case parse_nondecimal t of
                 Some n \<Rightarrow> round_double False (of_nat n)
               | None \<Rightarrow> (case parse_decimal t of Some x \<Rightarrow> x | None \<Rightarrow> NaN)))"


section \<open>Converting numbers to strings\<close>

fun digits_of :: "nat \<Rightarrow> jsstring" where
  \<comment> \<open>the decimal digits of a natural number, \<open>0\<close> written as one digit\<close>
  "digits_of n = (if n < 10 then [48 + n] else digits_of (n div 10) @ [48 + n mod 10])"

declare digits_of.simps [simp del]

text \<open>
  \<open>find_shortest x p k fuel\<close> looks for the shortest decimal significand that converts
  back to the binary64 magnitude \<open>x\<close>, which has \<open>p\<close> digits before the decimal point:
  the least \<open>k\<close> (from the given one on) with an integer \<open>c\<close> such that \<open>c * 10^(p-k)\<close>
  rounds to \<open>x\<close>, where \<open>c\<close> is \<open>x / 10^(p-k)\<close> rounded down or up; of two such
  integers the one nearer to \<open>x\<close>. When the fuel has run out, \<open>k\<close> is \<open>p\<close> and the
  significand is \<open>x\<close> itself.
\<close>

fun find_shortest :: "rat \<Rightarrow> nat \<Rightarrow> nat \<Rightarrow> nat \<Rightarrow> nat \<times> nat" where
  "find_shortest x p k 0 = (nat \<lfloor>x\<rfloor>, p)"
| "find_shortest x p k (Suc fuel) =
     (let scale = 10 ^ (p - k);
          lo = nat \<lfloor>x / scale\<rfloor>;
          hi = nat \<lceil>x / scale\<rceil>;
          oklo = (round_double False (of_nat lo * scale) = Finite False x);
          okhi = (round_double False (of_nat hi * scale) = Finite False x)
      in if oklo \<and> okhi then
           (if x - of_nat lo * scale \<le> of_nat hi * scale - x then (lo, k) else (hi, k))
         else if oklo then (lo, k)
         else if okhi then (hi, k)
         else find_shortest x p (Suc k) fuel)"

definition strip_trailing_zeros :: "jsstring \<Rightarrow> jsstring" where
  "strip_trailing_zeros ds =
     (let r = rev (dropWhile (\<lambda>c. c = 48) (rev ds)) in if r = [] then [48] else r)"

text \<open>
  \<open>to_string_large x\<close> is Number::toString for a finite \<open>x \<ge> 10^21\<close>, which is
  always in exponent notation: the significand found by \<open>find_shortest\<close> without its
  trailing zeros, written as \<open>d.ddd\<close> (or \<open>d\<close> alone when one digit is left), then
  \<open>e+\<close> and the decimal exponent of the first digit.
\<close>

definition to_string_large :: "rat \<Rightarrow> jsstring" where
  "to_string_large x =
     (let p = length (digits_of (nat \<lfloor>x\<rfloor>));
          (c, k) = find_shortest x p 1 (p - 1);
          ds0 = digits_of c;
          ds = strip_trailing_zeros ds0;
          e = (p - k) + length ds0 - 1
      in (if length ds = 1 then ds else hd ds # 46 # tl ds) @ [101, 43] @ digits_of e)"

definition padded_digits :: "nat \<Rightarrow> nat \<Rightarrow> jsstring" where
  \<comment> \<open>the digits of \<open>n\<close>, with zeros in front until there are more than \<open>f\<close>\<close>
  "padded_digits f n =
     (let ds = digits_of n
      in if length ds \<le> f then replicate (f + 1 - length ds) 48 @ ds else ds)"

text \<open>
  \<open>toFixed f x\<close> is \<open>x.toFixed(f)\<close>. NaN and the infinities give their names. A
  negative \<open>x\<close> gives a minus sign and the text of \<open>-x\<close> (the zero \<open>-0\<close> is not
  negative). From \<open>10^21\<close> on the text is that of Number::toString. Below, it is the
  integer \<open>n\<close> for which \<open>n / 10^f\<close> is nearest to \<open>x\<close>, the larger one of two,
  written with at least \<open>f + 1\<close> digits and a point before the last \<open>f\<close>.
\<close>

definition toFixed :: "nat \<Rightarrow> jsnum \<Rightarrow> jsstring" where
  "toFixed f x =
     (case x of
        NaN \<Rightarrow> ascii ''NaN''
      | Infinity s \<Rightarrow> (if s then ascii ''-Infinity'' else ascii ''Infinity'')
      | Finite s m \<Rightarrow>
          (if s \<and> m \<noteq> 0 then [45] else []) @
          (if 10 ^ 21 \<le> m then to_string_large m
           else
             (let padded = padded_digits f (nat \<lfloor>m * 10 ^ f + 1 / 2\<rfloor>);
                  k = length padded
              in if f = 0 then padded
                 else take (k - f) padded @ [46] @ drop (k - f) padded)))"

section \<open>The calculator\<close>

text \<open>
  The argument of \<open>calcCPL\<close> is an object that may lack any of its four fields: the
  wizard starts from the empty object and adds one field per step. A missing field reads
  as \<open>undefined\<close>; the parameter defaults replace an undefined \<open>trash\<close> or \<open>roi\<close> by
  \<open>0\<close>, and an undefined \<open>payout\<close> or \<open>approve\<close> is NaN in arithmetic.
\<close>

record lead_data =
  payout :: "jsnum option"
  approve :: "jsnum option"
  trash :: "jsnum option"
  roi :: "jsnum option"

record cpl_result =
  breakeven :: jsnum
  leadPrice :: jsnum

definition operand :: "jsnum option \<Rightarrow> jsnum" where
  \<comment> \<open>a field used as an arithmetic operand: \<open>undefined\<close> converts to NaN\<close>
  "operand v = (case v of None \<Rightarrow> NaN | Some x \<Rightarrow> x)"

definition with_default :: "jsnum \<Rightarrow> jsnum option \<Rightarrow> jsnum" where
  \<comment> \<open>a destructured parameter with a default value\<close>
  "with_default d v = (case v of None \<Rightarrow> d | Some x \<Rightarrow> x)"

definition calcCPL :: "lead_data \<Rightarrow> cpl_result" where
  "calcCPL p =
     (let A = js_div (operand (approve p)) (num 100);
          T = js_div (with_default (num 0) (trash p)) (num 100);
          R = js_div (with_default (num 0) (roi p)) (num 100);
          breakeven0 = js_div (js_mul (operand (payout p)) A) (js_add (num 1) T);
          leadPrice0 = js_div breakeven0 (js_add (num 1) R)
      in \<lparr>breakeven = to_number (toFixed 4 breakeven0),
          leadPrice = to_number (toFixed 4 leadPrice0)\<rparr>)"


section \<open>Sessions and replies\<close>

text \<open>
  A wizard session is the object \<open>{ step, data }\<close>; \<open>step\<close> is a string. The global
  \<open>sessions\<close> is a Map from chat ids to sessions; the handlers receive it and return it
  updated, together with the messages they send, in order. A message is modelled by what
  it says and by the numbers interpolated into it.
\<close>

record session =
  step :: string
  data :: lead_data

type_synonym chat_id = int

type_synonym sessions = "chat_id \<rightharpoonup> session"

datatype reply =
    NeedThreeNumbers
  | ArgsMustBeNumbers
  | CalcResult jsnum jsnum jsnum
  | AskPayout
  | AskApprove
  | AskTrash
  | AskRoi
  | SendNumber
  | WizardDone jsnum jsnum jsnum
  | StateError
  | MenuCalculator
  | MenuChannel
  | MenuManager

text \<open>
  In the two results the numbers are, in the order of the text, the break-even price,
  the ROI and the lead price. \<open>StateError\<close> is the message of the \<open>default\<close> branch
  of the step switch.
\<close>

definition empty_data :: lead_data where
  "empty_data = \<lparr>payout = None, approve = None, trash = None, roi = None\<rparr>"

definition no_sessions :: sessions where
  \<comment> \<open>\<open>new Map()\<close>\<close>
  "no_sessions = Map.empty"

section \<open>The one-line mode\<close>

text \<open>
  The handler of \<open>/calc (.+)\<close> receives the text matched by the group. It trims it,
  splits it at white space and converts every piece with \<open>Number\<close>. Fewer than three
  pieces are refused. The first three are payout, approve and trash; the fourth, when
  there is one, is the ROI, which is \<open>0\<close> otherwise; further pieces are not read. If
  one of the four is NaN the request is refused.
\<close>

definition calc_args :: "jsstring \<Rightarrow> jsnum list" where
  "calc_args m = map to_number (split_ws (trim m))"

definition calc_handler :: "jsstring \<Rightarrow> reply list" where
  "calc_handler m =
     (let args = calc_args m
      in if length args < 3 then [NeedThreeNumbers]
         else
           (let payout' = args ! 0;
                approve' = args ! 1;
                trash' = args ! 2;
                roi' = (if 3 < length args then args ! 3 else num 0)
            in if list_ex js_isNaN [payout', approve', trash', roi'] then [ArgsMustBeNumbers]
               else
                 (let r = calcCPL \<lparr>payout = Some payout', approve = Some approve',
                                    trash = Some trash', roi = Some roi'\<rparr>
                  in [CalcResult (breakeven r) roi' (leadPrice r)])))"

section \<open>The wizard\<close>

definition lead_handler :: "chat_id \<Rightarrow> sessions \<Rightarrow> sessions \<times> reply list" where
  \<comment> \<open>the handler of \<open>/lead\<close>\<close>
  "lead_handler c \<sigma> = (\<sigma>(c \<mapsto> \<lparr>step = ''payout'', data = empty_data\<rparr>), [AskPayout])"

text \<open>
  \<open>wizard_step\<close> is the second part of the message handler, from the lookup of the
  session on; both versions of the bot have the same. Without a session it does
  nothing. The text is converted with its first comma replaced by a point; NaN is
  answered by a request for a number and nothing changes. Otherwise the value is stored
  in the field of the current step and the step advances; at the step \<open>roi\<close> the result
  is computed from the data and the session is deleted. Any other step deletes the
  session.
\<close>

definition wizard_value :: "jsstring \<Rightarrow> jsnum" where
  "wizard_value text = to_number (replace_first 44 46 text)"

definition wizard_step :: "chat_id \<Rightarrow> jsstring \<Rightarrow> sessions \<Rightarrow> sessions \<times> reply list" where
  "wizard_step c text \<sigma> =
     (case \<sigma> c of
        None \<Rightarrow> (\<sigma>, [])
      | Some s \<Rightarrow>
          (let val = wizard_value text
           in if js_isNaN val then (\<sigma>, [SendNumber])
              else if step s = ''payout'' then
                (\<sigma>(c \<mapsto> s\<lparr>data := (data s)\<lparr>payout := Some val\<rparr>, step := ''approve''\<rparr>),
                 [AskApprove])
              else if step s = ''approve'' then
                (\<sigma>(c \<mapsto> s\<lparr>data := (data s)\<lparr>approve := Some val\<rparr>, step := ''trash''\<rparr>),
                 [AskTrash])
              else if step s = ''trash'' then
                (\<sigma>(c \<mapsto> s\<lparr>data := (data s)\<lparr>trash := Some val\<rparr>, step := ''roi''\<rparr>),
                 [AskRoi])
              else if step s = ''roi'' then
                (let r = calcCPL ((data s)\<lparr>roi := Some val\<rparr>)
                 in (\<sigma>(c := None), [WizardDone (breakeven r) val (leadPrice r)]))
              else (\<sigma>(c := None), [StateError])))"

text \<open>The four labels of the main menu, as UTF-16 code units.\<close>

definition label_calculator :: jsstring where
  "label_calculator =
     [1050, 1072, 1083, 1100, 1082, 1091, 1083, 1103, 1090, 1086, 1088, 32,
      1072, 1088, 1073, 1080, 1090, 1088, 1072, 1078, 1085, 1080, 1082, 1072]"

definition label_channel :: jsstring where
  "label_channel = [1053, 1072, 1096, 32, 1090, 1075, 45, 1082, 1072, 1085, 1072, 1083]"

definition label_manager :: jsstring where
  "label_manager =
     [1057, 1074, 1103, 1079, 1072, 1090, 1100, 1089, 1103, 32, 1089, 32,
      1084, 1077, 1085, 1077, 1076, 1078, 1077, 1088, 1086, 1084, 47,
      1079, 1072, 1076, 1072, 1090, 1100, 32, 1074, 1086, 1087, 1088, 1086, 1089]"

definition label_ads :: jsstring where
  "label_ads =
     [1056, 1077, 1082, 1083, 1072, 1084, 1072, 32, 1074, 32,
      84, 101, 108, 101, 103, 114, 97, 109, 32, 65, 100, 115]"

definition is_menu_label :: "jsstring \<Rightarrow> bool" where
  "is_menu_label t \<longleftrightarrow>
     t = label_calculator \<or> t = label_channel \<or> t = label_manager \<or> t = label_ads"

text \<open>
  The message handler of \<open>bot.js\<close>. A message without text (\<open>None\<close>), with the empty
  text or with a text that starts with a slash is ignored. A menu label is answered and
  the handler returns. Anything else goes to the wizard.
\<close>

definition message_handler ::
    "chat_id \<Rightarrow> jsstring option \<Rightarrow> sessions \<Rightarrow> sessions \<times> reply list" where
  "message_handler c msg_text \<sigma> =
     (case msg_text of
        None \<Rightarrow> (\<sigma>, [])
      | Some text \<Rightarrow>
          if text = [] \<or> starts_with_slash text then (\<sigma>, [])
          else if text = label_calculator then (\<sigma>, [MenuCalculator])
          else if text = label_channel then (\<sigma>, [MenuChannel])
          else if text = label_manager \<or> text = label_ads then (\<sigma>, [MenuManager])
          else wizard_step c text \<sigma>)"

text \<open>The message handler of the version without the menu.\<close>

definition message_handler_plain ::
    "chat_id \<Rightarrow> jsstring option \<Rightarrow> sessions \<Rightarrow> sessions \<times> reply list" where
  "message_handler_plain c msg_text \<sigma> =
     (case msg_text of
        None \<Rightarrow> (\<sigma>, [])
      | Some text \<Rightarrow>
          if text = [] \<or> starts_with_slash text then (\<sigma>, [])
          else wizard_step c text \<sigma>)"

text \<open>
  The events of one conversation, and a run of the bot over a list of events addressed to
  one chat, collecting the replies.
\<close>

datatype event =
    Lead
  | Submit jsstring
  | Message "jsstring option"
  | MessagePlain "jsstring option"
  | Calc jsstring

fun handle :: "chat_id \<Rightarrow> event \<Rightarrow> sessions \<Rightarrow> sessions \<times> reply list" where
  "handle c Lead \<sigma> = lead_handler c \<sigma>"
| "handle c (Submit t) \<sigma> = wizard_step c t \<sigma>"
| "handle c (Message t) \<sigma> = message_handler c t \<sigma>"
| "handle c (MessagePlain t) \<sigma> = message_handler_plain c t \<sigma>"
| "handle c (Calc m) \<sigma> = (\<sigma>, calc_handler m)"

fun run :: "chat_id \<Rightarrow> event list \<Rightarrow> sessions \<Rightarrow> sessions \<times> reply list" where
  "run c [] \<sigma> = (\<sigma>, [])"
| "run c (e # es) \<sigma> =
     (case handle c e \<sigma> of (\<sigma>', out) \<Rightarrow>
        (case run c es \<sigma>' of (\<sigma>'', out') \<Rightarrow> (\<sigma>'', out @ out')))"


section \<open>Well-formed sessions and reachable stores\<close>

text \<open>
  A field is numeric when it is present and is not NaN. A well-formed session is at one of
  the four steps and holds exactly the fields of the steps before it, all numeric.
  Complete data has all four fields numeric.
\<close>

definition numeric_field :: "jsnum option \<Rightarrow> bool" where
  "numeric_field v = (case v of None \<Rightarrow> False | Some x \<Rightarrow> \<not> js_isNaN x)"

definition session_ok :: "session \<Rightarrow> bool" where
  "session_ok s =
     (let d = data s
      in if step s = ''payout'' then
           payout d = None \<and> approve d = None \<and> trash d = None \<and> roi d = None
         else if step s = ''approve'' then
           numeric_field (payout d) \<and> approve d = None \<and> trash d = None \<and> roi d = None
         else if step s = ''trash'' then
           numeric_field (payout d) \<and> numeric_field (approve d) \<and> trash d = None \<and> roi d = None
         else if step s = ''roi'' then
           numeric_field (payout d) \<and> numeric_field (approve d) \<and> numeric_field (trash d)
           \<and> roi d = None
         else False)"

definition complete_data :: "lead_data \<Rightarrow> bool" where
  "complete_data d \<longleftrightarrow>
     numeric_field (payout d) \<and> numeric_field (approve d) \<and> numeric_field (trash d)
     \<and> numeric_field (roi d)"

text \<open>
  The stores the bot can be in: it starts with the empty Map, and every event of every
  chat is handled in turn.
\<close>

inductive reachable :: "sessions \<Rightarrow> bool" where
  reachable_init: "reachable no_sessions"
| reachable_step: "reachable \<sigma> \<Longrightarrow> reachable (fst (handle c e \<sigma>))"

section \<open>The calculator as the specification states it\<close>

text \<open>
  The contract of the calculator, for comparison with \<open>calcCPL\<close>: with
  \<open>A = approve / 100\<close>, \<open>T = trash / 100\<close> and \<open>R = roi / 100\<close>, where trash and
  ROI are \<open>0\<close> when absent, the break-even price is \<open>(payout * A) / (1 + T)\<close> and the
  lead price is the break-even price divided by \<open>1 + R\<close>, each rounded to four decimal
  places, a half away from zero. The arithmetic is that of Numbers; a value rounded to
  four decimals is the Number nearest to that decimal.
\<close>

definition spec_round4 :: "jsnum \<Rightarrow> jsnum" where
  "spec_round4 x =
     (case x of
        Finite s m \<Rightarrow> round_double s (of_int \<lfloor>m * 10 ^ 4 + 1 / 2\<rfloor> / 10 ^ 4)
      | _ \<Rightarrow> x)"


text \<open>
  The same formula read in exact arithmetic, over the rationals: the quotient
  \<open>(payout * approve/100) / (1 + trash/100)\<close> itself, and its rounding to four
  decimal places, a half away from zero.
\<close>

definition exact_breakeven :: "rat \<Rightarrow> rat \<Rightarrow> rat \<Rightarrow> rat" where
  "exact_breakeven p a t = (p * (a / 100)) / (1 + t / 100)"

definition exact_leadPrice :: "rat \<Rightarrow> rat \<Rightarrow> rat \<Rightarrow> rat \<Rightarrow> rat" where
  "exact_leadPrice p a t r = exact_breakeven p a t / (1 + r / 100)"


text \<open>
  Two Numbers are the same number when they are equal or are the two zeros. An optional
  field is well formed when it is absent or holds a binary64 value.
\<close>

definition same_number :: "jsnum \<Rightarrow> jsnum \<Rightarrow> bool" where
  "same_number x y \<longleftrightarrow> x = y \<or> (\<exists>s t. x = Finite s 0 \<and> y = Finite t 0)"


section \<open>Evaluating the arithmetic\<close>

lemma floor_numeral_div: "\<lfloor>(numeral a :: rat) / numeral b\<rfloor> = numeral a div numeral b"
  using floor_divide_of_int_eq [of "numeral a" "numeral b", where 'a = rat] by simp

lemma powi_less_iff: "(2::rat) powi m < 2 powi n \<longleftrightarrow> m < n"
proof
  assume h: "(2::rat) powi m < 2 powi n"
  show "m < n"
  proof (rule ccontr)
    assume "\<not> m < n"
    then have "n \<le> m" by simp
    then have "(2::rat) powi n \<le> 2 powi m" by (intro power_int_increasing) simp_all
    with h show False by simp
  qed
next
  assume "m < n"
  then show "(2::rat) powi m < 2 powi n" by (intro power_int_strict_increasing) simp_all
qed

lemma powi_le_iff: "(2::rat) powi m \<le> 2 powi n \<longleftrightarrow> m \<le> n"
  using powi_less_iff [of n m] by (simp add: not_less [symmetric])

lemma bitlen_powi_bounds:
  assumes "0 < a"
  shows "(2::rat) powi (bitlen a - 1) \<le> of_int a \<and> of_int a < (2::rat) powi (bitlen a)"
proof -
  have ge: "1 \<le> bitlen a" using assms by (auto simp: bitlen_alt_def)
  from bitlen_bounds [OF assms]
  have "(2::int) ^ nat (bitlen a - 1) \<le> a" and "a < (2::int) ^ nat (bitlen a)" by simp_all
  then have "(of_int ((2::int) ^ nat (bitlen a - 1)) :: rat) \<le> of_int a"
    and "(of_int a :: rat) < of_int ((2::int) ^ nat (bitlen a))"
    by (simp_all only: of_int_le_iff of_int_less_iff)
  then show ?thesis using ge by (simp add: power_int_def)
qed

lemma ilog2_bounds:
  assumes "0 < q"
  shows "2 powi (ilog2 q) \<le> q \<and> q < 2 powi (ilog2 q + 1)"
proof -
  obtain a b where ab: "quotient_of q = (a, b)" by (cases "quotient_of q")
  then have b: "0 < b" and q: "q = of_int a / of_int b"
    using quotient_of_denom_pos quotient_of_div by auto
  from assms q b have a: "0 < a" by (simp add: zero_less_divide_iff)
  define la where "la = bitlen a"
  define lb where "lb = bitlen b"
  have a1: "(2::rat) powi (la - 1) \<le> of_int a" and a2: "of_int a < (2::rat) powi la"
    using bitlen_powi_bounds [OF a] by (simp_all add: la_def)
  have b1: "(2::rat) powi (lb - 1) \<le> of_int b" and b2: "of_int b < (2::rat) powi lb"
    using bitlen_powi_bounds [OF b] by (simp_all add: lb_def)
  have bpos: "(0::rat) < of_int b" using b by simp
  have p1: "(0::rat) < 2 powi (lb - 1)" and p2: "(0::rat) < 2 powi lb" by simp_all
  have "q < 2 powi la / of_int b"
    unfolding q using a2 bpos by (rule divide_strict_right_mono)
  also have "\<dots> \<le> 2 powi la / 2 powi (lb - 1)"
    using b1 p1 bpos by (intro divide_left_mono mult_pos_pos) simp_all
  also have "\<dots> = 2 powi (la - lb + 1)"
    by (simp add: power_int_diff [symmetric] algebra_simps)
  finally have up: "q < 2 powi (la - lb + 1)" .
  have "(2::rat) powi (la - lb - 1) = 2 powi (la - 1) / 2 powi lb"
    by (simp add: power_int_diff [symmetric] algebra_simps)
  also have "\<dots> \<le> of_int a / 2 powi lb"
    using a1 p2 by (intro divide_right_mono) simp_all
  also have "\<dots> \<le> of_int a / of_int b"
    using b2 bpos a p2 by (intro divide_left_mono mult_pos_pos) simp_all
  finally have low: "2 powi (la - lb - 1) \<le> q" unfolding q .
  show ?thesis
    using up low ab by (auto simp: ilog2_def Let_def la_def lb_def)
qed

lemma powi_exponent_unique:
  assumes "(2::rat) powi e \<le> q" "q < 2 powi (e + 1)" "2 powi e' \<le> q" "q < 2 powi (e' + 1)"
  shows "e = e'"
proof -
  have "(2::rat) powi e < 2 powi (e' + 1)" using assms by linarith
  then have 1: "e < e' + 1" by (simp only: powi_less_iff)
  have "(2::rat) powi e' < 2 powi (e + 1)" using assms by linarith
  then have 2: "e' < e + 1" by (simp only: powi_less_iff)
  from 1 2 show ?thesis by simp
qed

lemma ilog2_unique:
  assumes "2 powi e \<le> q" "q < 2 powi (e + 1)"
  shows "ilog2 q = e"
proof -
  have "(0::rat) < 2 powi e" by simp
  with assms have "0 < q" by linarith
  from ilog2_bounds [OF this] assms show ?thesis
    using powi_exponent_unique by blast
qed

lemma round_double_exp:
  assumes "2 powi e \<le> q" "q < 2 powi (e + 1)"
  shows "round_double s q =
     (let u = 2 powi (max e (- 1022) - 52);
          r = of_int (round_half_even (q / u)) * u
      in if 2 ^ 1024 \<le> r then Infinity s else Finite s r)"
proof -
  have "(0::rat) < 2 powi e" by simp
  with assms have "q \<noteq> 0" by linarith
  then show ?thesis by (simp add: round_double_def ilog2_unique [OF assms])
qed

section \<open>The worked example\<close>

lemmas round_eval = round_half_even_def Let_def floor_numeral_div

lemmas parse_defs = to_number_def ascii_def trim_def is_ws_def parse_nondecimal_def parse_decimal_def
  parse_unsigned_decimal_def parse_exponent_def is_digit_def digits_val_def radix_digit_def

lemma num_0: "num 0 = Finite False 0"
  by (simp add: num_def round_double_def)

lemma num_1: "num 1 = Finite False 1"
  by (simp add: num_def round_double_exp [where e = 0] round_eval)

lemma num_100: "num 100 = Finite False 100"
  by (simp add: num_def round_double_exp [where e = 6] round_eval)

lemma num_20: "num 20 = Finite False 20"
  by (simp add: num_def round_double_exp [where e = 4] round_eval)


lemma num_35: "num 35 = Finite False 35"
  by (simp add: num_def round_double_exp [where e = 5] round_eval)

lemma num_50: "num 50 = Finite False 50"
  by (simp add: num_def round_double_exp [where e = 5] round_eval)

lemma ex_A: "js_div (Finite False 35) (Finite False 100) =
    Finite False (3152519739159347 / 9007199254740992)"
  by (simp add: round_double_exp [where e = "- 2"] round_eval)

lemma ex_T: "js_div (Finite False 30) (Finite False 100) =
    Finite False (5404319552844595 / 18014398509481984)"
  by (simp add: round_double_exp [where e = "- 2"] round_eval)

lemma ex_R: "js_div (Finite False 50) (Finite False 100) = Finite False (1 / 2)"
  by (simp add: round_double_exp [where e = "- 1"] round_eval)

lemma ex_PA: "js_mul (Finite False 20) (Finite False (3152519739159347 / 9007199254740992)) =
    Finite False 7"
  by (simp add: round_double_exp [where e = 2] round_eval)

lemma ex_1T: "js_add (Finite False 1) (Finite False (5404319552844595 / 18014398509481984)) =
    Finite False (5854679515581645 / 4503599627370496)"
  by (simp add: signed_val_def round_double_exp [where e = 0] round_eval)

lemma ex_1R: "js_add (Finite False 1) (Finite False (1 / 2)) = Finite False (3 / 2)"
  by (simp add: signed_val_def round_double_exp [where e = 0] round_eval)

lemma ex_0_100: "js_div (Finite False 0) (Finite False 100) = Finite False 0"
  by (simp add: round_double_def)

lemma ex_1_0: "js_add (Finite False 1) (Finite False 0) = Finite False 1"
  by (simp add: signed_val_def round_double_exp [where e = 0] round_eval)

lemma ex_breakeven0:
  "js_div (Finite False 7) (Finite False (5854679515581645 / 4503599627370496)) =
    Finite False (6062537959921821 / 1125899906842624)"
  by (simp add: round_double_exp [where e = 2] round_eval)

lemma ex_leadPrice0:
  "js_div (Finite False (6062537959921821 / 1125899906842624)) (Finite False (3 / 2)) =
    Finite False (2020845986640607 / 562949953421312)"
  by (simp add: round_double_exp [where e = 1] round_eval)

lemma ex_breakeven_text:
  "toFixed 4 (Finite False (6062537959921821 / 1125899906842624)) = ascii ''5.3846''"
  by (simp add: toFixed_def padded_digits_def ascii_def digits_of.simps round_eval)

lemma ex_leadPrice_text:
  "toFixed 4 (Finite False (2020845986640607 / 562949953421312)) = ascii ''3.5897''"
  by (simp add: toFixed_def padded_digits_def ascii_def digits_of.simps round_eval)

lemma ex_breakeven: "to_number (ascii ''5.3846'') =
    Finite False (6062520638384793 / 1125899906842624)"
  by (simp add: parse_defs round_double_exp [where e = 2] round_eval)

lemma ex_leadPrice: "to_number (ascii ''3.5897'') =
    Finite False (8083285791185935 / 2251799813685248)"
  by (simp add: parse_defs round_double_exp [where e = 1] round_eval)

lemma calcCPL_20_35_30_50:
  "calcCPL \<lparr>payout = Some (Finite False 20), approve = Some (Finite False 35),
            trash = Some (Finite False 30), roi = Some (Finite False 50)\<rparr> =
   \<lparr>breakeven = Finite False (6062520638384793 / 1125899906842624),
    leadPrice = Finite False (8083285791185935 / 2251799813685248)\<rparr>"
  by (simp add: calcCPL_def operand_def with_default_def num_1 num_100 ex_A ex_T ex_R ex_PA ex_1T
      ex_1R ex_breakeven0 ex_leadPrice0 ex_breakeven_text ex_leadPrice_text ex_breakeven
      ex_leadPrice del: js_add.simps js_mul.simps js_div.simps)


section \<open>Rounding to binary64 is idempotent\<close>

lemma round_half_even_of_int: "round_half_even (of_int n) = n"
  by (simp add: round_half_even_def)

lemma round_half_even_bounds: "\<lfloor>x\<rfloor> \<le> round_half_even x \<and> round_half_even x \<le> \<lfloor>x\<rfloor> + 1"
  by (simp add: round_half_even_def Let_def)

lemma powi_2_diff: "(2::rat) powi a / 2 powi b = 2 powi (a - b)"
  by (simp add: power_int_diff)

lemma powi_2_add: "(2::rat) powi a * 2 powi b = 2 powi (a + b)"
  by (simp add: power_int_add)

lemma powi_2_add_eq: "a + b = c \<Longrightarrow> (2::rat) powi a * 2 powi b = 2 powi c"
  using powi_2_add [of a b] by simp

text \<open>
  A magnitude \<open>n * 2^(e-52)\<close> with at most 53 bits in \<open>n\<close>, and either a full
  significand or the least exponent, is a binary64 value.
\<close>

lemma round_double_representable:
  assumes r: "r = of_int n * 2 powi (e - 52)"
    and n: "0 < n" "n \<le> 2 ^ 53"
    and e: "- 1022 \<le> e"
    and full: "2 ^ 52 \<le> n \<or> e = - 1022"
    and fin: "r < 2 ^ 1024"
  shows "round_double s r = Finite s r"
proof -
  have upos: "(0::rat) < 2 powi (e - 52)" by simp
  have rpos: "0 < r" unfolding r using n(1) upos by (simp add: zero_less_mult_iff)
  show ?thesis
  proof (cases "n = 2 ^ 53")
    case True
    have "r = 2 powi 53 * 2 powi (e - 52)" unfolding r True by (simp add: power_int_def)
    also have "\<dots> = 2 powi (e + 1)" by (rule powi_2_add_eq) simp
    finally have r1: "r = 2 powi (e + 1)" .
    have lo: "2 powi (e + 1) \<le> r" using r1 by simp
    have hi: "r < 2 powi (e + 1 + 1)" unfolding r1 by (simp add: powi_less_iff)
    have m: "max (e + 1) (- 1022) = e + 1" using e by simp
    have "r / 2 powi (e + 1 - 52) = 2 powi 52" unfolding r1 by (simp add: powi_2_diff)
    also have "\<dots> = of_int (2 ^ 52)" by (simp add: power_int_def)
    finally have q: "r / 2 powi (e + 1 - 52) = of_int (2 ^ 52)" .
    have restore: "of_int (2 ^ 52) * 2 powi (e + 1 - 52) = r"
    proof -
      have "of_int (2 ^ 52) * 2 powi (e + 1 - 52) = (2::rat) powi 52 * 2 powi (e + 1 - 52)"
        by (simp add: power_int_def)
      also have "\<dots> = 2 powi (e + 1)" by (rule powi_2_add_eq) simp
      finally show ?thesis using r1 by simp
    qed
    show ?thesis
      unfolding round_double_exp [OF lo hi] Let_def m q round_half_even_of_int restore
      using fin by simp
  next
    case False
    with n have nlt: "n < 2 ^ 53" by simp
    have quot: "r / 2 powi (e - 52) = of_int n" unfolding r by simp
    have hi: "r < 2 powi (e + 1)"
    proof -
      have "(of_int n :: rat) < of_int (2 ^ 53)" using nlt by (simp only: of_int_less_iff)
      then have "of_int n < (2::rat) powi 53" by (simp add: power_int_def)
      then have "r < 2 powi 53 * 2 powi (e - 52)" unfolding r using upos
        by (simp add: mult_strict_right_mono)
      also have "\<dots> = 2 powi (e + 1)" by (rule powi_2_add_eq) simp
      finally show ?thesis .
    qed
    show ?thesis
    proof (cases "2 ^ 52 \<le> n")
      case True
      have lo: "2 powi e \<le> r"
      proof -
        have "(of_int (2 ^ 52) :: rat) \<le> of_int n" using True by (simp only: of_int_le_iff)
        then have "(2::rat) powi 52 \<le> of_int n" by (simp add: power_int_def)
        then have "2 powi 52 * 2 powi (e - 52) \<le> r" unfolding r using upos
          by (simp add: mult_right_mono)
        moreover have "(2::rat) powi 52 * 2 powi (e - 52) = 2 powi e"
          unfolding powi_2_add by simp
        ultimately show ?thesis by simp
      qed
      have m: "max e (- 1022) = e" using e by simp
      show ?thesis
        unfolding round_double_exp [OF lo hi] Let_def m quot round_half_even_of_int
        using fin r by simp
    next
      case small: False
      with full have e22: "e = - 1022" by simp
      define e0 where "e0 = ilog2 r"
      from ilog2_bounds [OF rpos] have b: "2 powi e0 \<le> r" "r < 2 powi (e0 + 1)"
        by (simp_all add: e0_def)
      have "r < 2 powi e"
      proof -
        have "n < 2 ^ 52" using small by simp
        then have "(of_int n :: rat) < of_int (2 ^ 52)" by (simp only: of_int_less_iff)
        then have "of_int n < (2::rat) powi 52" by (simp add: power_int_def)
        then have "r < 2 powi 52 * 2 powi (e - 52)" unfolding r using upos
          by (simp add: mult_strict_right_mono)
        also have "\<dots> = 2 powi (e)" by (rule powi_2_add_eq) simp
        finally show ?thesis .
      qed
      with b(1) have "(2::rat) powi e0 < 2 powi e" by simp
      then have "e0 < e" by (simp only: powi_less_iff)
      then have m: "max e0 (- 1022) = e" using e22 by simp
      show ?thesis
        unfolding round_double_exp [OF b] Let_def m quot round_half_even_of_int
        using fin r by simp
    qed
  qed
qed

lemma round_double_cases:
  assumes "0 \<le> q"
  shows "round_double s q = Infinity s \<or>
         (\<exists>r. round_double s q = Finite s r \<and> 0 \<le> r \<and> round_double s r = Finite s r)"
proof (cases "q = 0")
  case True
  then show ?thesis by (simp add: round_double_def)
next
  case False
  with assms have qpos: "0 < q" by simp
  define e0 where "e0 = ilog2 q"
  define e where "e = max e0 (- 1022)"
  define u :: rat where "u = 2 powi (e - 52)"
  define n where "n = round_half_even (q / u)"
  define r where "r = of_int n * u"
  from ilog2_bounds [OF qpos] have b: "2 powi e0 \<le> q" "q < 2 powi (e0 + 1)"
    by (simp_all add: e0_def)
  have upos: "0 < u" by (simp add: u_def)
  have rd: "round_double s q = (if 2 ^ 1024 \<le> r then Infinity s else Finite s r)"
    unfolding round_double_exp [OF b] Let_def r_def n_def u_def e_def by simp
  have e_ge: "- 1022 \<le> e" and e0_le: "e0 \<le> e" by (simp_all add: e_def)
  have qu_nonneg: "0 \<le> q / u" using qpos upos by simp
  have n_nonneg: "0 \<le> n"
  proof -
    have "0 \<le> \<lfloor>q / u\<rfloor>" using qu_nonneg by simp
    with round_half_even_bounds [of "q / u"] show ?thesis unfolding n_def by linarith
  qed
  have n_le: "n \<le> 2 ^ 53"
  proof -
    have "q / u < 2 powi (e0 + 1) / u" using b(2) upos by (simp add: divide_strict_right_mono)
    also have "\<dots> = 2 powi (e0 + 1 - (e - 52))" unfolding u_def by (rule powi_2_diff)
    also have "\<dots> \<le> 2 powi 53"
    proof -
      have "e0 + 1 - (e - 52) \<le> 53" using e0_le by simp
      then show ?thesis by (simp only: powi_le_iff)
    qed
    also have "\<dots> = of_int (2 ^ 53)" by (simp add: power_int_def)
    finally have "q / u < of_int (2 ^ 53)" .
    then have "\<lfloor>q / u\<rfloor> < 2 ^ 53" by (simp only: floor_less_iff)
    with round_half_even_bounds [of "q / u"] show ?thesis unfolding n_def by linarith
  qed
  have full: "2 ^ 52 \<le> n \<or> e = - 1022"
  proof (cases "e = - 1022")
    case True
    then show ?thesis by simp
  next
    case False
    then have ee: "e = e0" by (simp add: e_def max_def split: if_splits)
    have "(of_int (2 ^ 52) :: rat) = 2 powi 52" by (simp add: power_int_def)
    also have "\<dots> = 2 powi (e0 - (e - 52))" using ee by simp
    also have "\<dots> = 2 powi e0 / u" unfolding u_def by (rule powi_2_diff [symmetric])
    also have "\<dots> \<le> q / u" using b(1) upos by (simp add: divide_right_mono)
    finally have "of_int (2 ^ 52) \<le> q / u" .
    then have "2 ^ 52 \<le> \<lfloor>q / u\<rfloor>" by (simp only: le_floor_iff)
    with round_half_even_bounds [of "q / u"] show ?thesis unfolding n_def by linarith
  qed
  show ?thesis
  proof (cases "2 ^ 1024 \<le> r")
    case True
    with rd show ?thesis by simp
  next
    case fin: False
    have rnn: "0 \<le> r" unfolding r_def using n_nonneg upos by simp
    have "round_double s r = Finite s r"
    proof (cases "n = 0")
      case True
      then show ?thesis by (simp add: r_def round_double_def)
    next
      case False
      with n_nonneg have "0 < n" by simp
      moreover have "r = of_int n * 2 powi (e - 52)" by (simp add: r_def u_def)
      moreover have "r < 2 ^ 1024" using fin by simp
      ultimately show ?thesis using n_le e_ge full by (intro round_double_representable)
    qed
    with rd fin rnn show ?thesis by simp
  qed
qed

lemma round_double_is_double: "0 \<le> q \<Longrightarrow> is_double (round_double s q)"
  using round_double_cases [of q s] by (auto simp: is_double_def)

lemma round_double_not_NaN: "round_double s q \<noteq> NaN"
  by (simp add: round_double_def Let_def)

lemma round_double_idem:
  assumes "is_double (Finite s m)"
  shows "round_double t m = Finite t m"
proof -
  from assms have "0 \<le> m" and eq: "round_double s m = Finite s m" by (simp_all add: is_double_def)
  show ?thesis
  proof (cases "m = 0")
    case True
    then show ?thesis by (simp add: round_double_def)
  next
    case False
    with eq show ?thesis by (simp add: round_double_def Let_def split: if_splits)
  qed
qed

section \<open>Digits and their value\<close>

lemma is_digit_not_ws: "is_digit c \<Longrightarrow> \<not> is_ws c"
  by (auto simp: is_digit_def is_ws_def)

lemma digits_of_all_digits: "list_all is_digit (digits_of n)"
proof (induction n rule: digits_of.induct)
  case (1 n)
  show ?case
  proof (cases "n < 10")
    case True
    then show ?thesis by (subst digits_of.simps) (simp add: is_digit_def)
  next
    case False
    have "n mod 10 < 10" by simp
    then have "is_digit (48 + n mod 10)" unfolding is_digit_def by linarith
    with False 1 show ?thesis by (subst digits_of.simps) simp
  qed
qed

lemma digits_of_nonempty: "digits_of n \<noteq> []"
  by (subst digits_of.simps) simp

lemma digits_val_Nil: "digits_val [] = 0"
  by (simp add: digits_val_def)

lemma digits_val_snoc: "digits_val (xs @ [c]) = 10 * digits_val xs + (c - 48)"
  by (simp add: digits_val_def)

lemma digits_val_single: "digits_val [c] = c - 48"
  by (simp add: digits_val_def)

lemma digits_val_zero_Cons: "digits_val (48 # xs) = digits_val xs"
  by (simp add: digits_val_def)

lemma digits_val_zeros: "digits_val (replicate j 48 @ xs) = digits_val xs"
  by (induction j) (simp_all add: digits_val_zero_Cons)

lemma digits_val_digits_of: "digits_val (digits_of n) = n"
proof (induction n rule: digits_of.induct)
  case (1 n)
  show ?case
  proof (cases "n < 10")
    case True
    then show ?thesis by (subst digits_of.simps) (simp add: digits_val_single)
  next
    case False
    with 1 have "digits_val (digits_of (n div 10)) = n div 10" by simp
    with False show ?thesis by (subst digits_of.simps) (simp add: digits_val_snoc)
  qed
qed

lemma digits_val_append_zeros: "digits_val (xs @ replicate j 48) = digits_val xs * 10 ^ j"
proof (induction j)
  case 0
  then show ?case by simp
next
  case (Suc j)
  have "xs @ replicate (Suc j) 48 = (xs @ replicate j 48) @ [48]"
    by (simp add: replicate_append_same)
  then show ?case using Suc by (simp only: digits_val_snoc) simp
qed

section \<open>Reading back what was written\<close>

lemma dropWhile_id: "xs \<noteq> [] \<Longrightarrow> \<not> P (hd xs) \<Longrightarrow> dropWhile P xs = xs"
  by (cases xs) simp_all

lemma trim_id:
  assumes "s \<noteq> []" "\<not> is_ws (hd s)" "\<not> is_ws (last s)"
  shows "trim s = s"
proof -
  have 1: "dropWhile is_ws s = s" using assms(1,2) by (rule dropWhile_id)
  have "rev s \<noteq> []" using assms(1) by simp
  moreover have "\<not> is_ws (hd (rev s))" using assms(1,3) by (simp add: hd_rev)
  ultimately have 2: "dropWhile is_ws (rev s) = rev s" by (rule dropWhile_id)
  show ?thesis by (simp add: trim_def 1 2)
qed

lemma takeWhile_digits_stop:
  assumes "list_all is_digit xs" "\<not> is_digit y"
  shows "takeWhile is_digit (xs @ y # ys) = xs" and "dropWhile is_digit (xs @ y # ys) = y # ys"
  using assms by (induction xs) simp_all

lemma takeWhile_digits_all:
  assumes "list_all is_digit xs"
  shows "takeWhile is_digit xs = xs" and "dropWhile is_digit xs = []"
  using assms by (induction xs) simp_all

lemma parse_exponent_plus:
  assumes "list_all is_digit ex" "ex \<noteq> []"
  shows "parse_exponent (101 # 43 # ex) = Some (int (digits_val ex))"
  using assms by (simp add: parse_exponent_def)

lemma parse_exponent_Nil: "parse_exponent [] = Some 0"
  by (simp add: parse_exponent_def)

lemma not_digit_chars: "\<not> is_digit 46" "\<not> is_digit 101" "\<not> is_digit 45" "\<not> is_digit 73"
  by (simp_all add: is_digit_def)

lemma parse_unsigned_decimal_point:
  assumes "list_all is_digit ip" "list_all is_digit fp" "ip \<noteq> []"
    and "parse_exponent r = Some e" and "r = [] \<or> \<not> is_digit (hd r)"
  shows "parse_unsigned_decimal (ip @ 46 # fp @ r) =
     Some (of_nat (digits_val (ip @ fp)) * 10 powi (e - int (length fp)))"
proof -
  have 1: "takeWhile is_digit (ip @ 46 # fp @ r) = ip"
    and 2: "dropWhile is_digit (ip @ 46 # fp @ r) = 46 # fp @ r"
    using takeWhile_digits_stop [OF assms(1) not_digit_chars(1)] by simp_all
  have 3: "takeWhile is_digit (fp @ r) = fp \<and> dropWhile is_digit (fp @ r) = r"
  proof (cases r)
    case Nil
    then show ?thesis using takeWhile_digits_all [OF assms(2)] by simp
  next
    case (Cons y ys)
    with assms(5) have "\<not> is_digit y" by simp
    from takeWhile_digits_stop [OF assms(2) this] Cons show ?thesis by simp
  qed
  show ?thesis
    unfolding parse_unsigned_decimal_def Let_def 1 2
    using 3 assms(3,4) by simp
qed

lemma parse_unsigned_decimal_no_point:
  assumes "list_all is_digit ip" "ip \<noteq> []"
    and "parse_exponent (101 # r) = Some e"
  shows "parse_unsigned_decimal (ip @ 101 # r) = Some (of_nat (digits_val ip) * 10 powi e)"
proof -
  have 1: "takeWhile is_digit (ip @ 101 # r) = ip"
    and 2: "dropWhile is_digit (ip @ 101 # r) = 101 # r"
    using takeWhile_digits_stop [OF assms(1) not_digit_chars(2)] by simp_all
  show ?thesis
    unfolding parse_unsigned_decimal_def Let_def 1 2
    using assms(2,3) by simp
qed

lemma parse_nondecimal_none:
  assumes "is_digit p \<or> p = 46 \<or> p = 101"
  shows "parse_nondecimal (z # p # rest) = None"
  using assms by (cases rest) (auto simp: parse_nondecimal_def is_digit_def)

lemma parse_nondecimal_minus: "parse_nondecimal (45 # rest) = None"
  by (simp add: parse_nondecimal_def split: list.splits)

text \<open>
  A text that is an optional minus sign and then an unsigned decimal literal starting
  with a digit and ending with one converts to the literal's value, rounded, with the
  sign.
\<close>

lemma to_number_signed_decimal:
  assumes body: "body = d # p # rest" and d: "is_digit d" and p: "is_digit p \<or> p = 46 \<or> p = 101"
    and l: "is_digit (last body)"
    and v: "parse_unsigned_decimal body = Some v"
  shows "to_number ((if neg then [45] else []) @ body) = round_double neg v"
proof -
  have d45: "d \<noteq> 45" "d \<noteq> 43" using d by (auto simp: is_digit_def)
  have inf: "body \<noteq> ascii ''Infinity''" using d body by (auto simp: ascii_def is_digit_def)
  have lw: "\<not> is_ws (last body)" using l by (rule is_digit_not_ws)
  show ?thesis
  proof (cases neg)
    case True
    have "\<not> is_ws 45" by (simp add: is_ws_def)
    moreover have "last (45 # body) = last body" using body by simp
    ultimately have t: "trim (45 # body) = 45 # body" using lw by (intro trim_id) simp_all
    have "parse_decimal (45 # body) = Some (round_double True v)"
      using inf v by (simp add: parse_decimal_def)
    then have "to_number (45 # body) = round_double True v"
      by (simp add: to_number_def t parse_nondecimal_minus)
    with True show ?thesis by simp
  next
    case False
    have "\<not> is_ws (hd body)" using d body by (simp add: is_digit_not_ws)
    moreover have "body \<noteq> []" using body by simp
    ultimately have t: "trim body = body" using lw by (intro trim_id)
    have nd: "parse_nondecimal body = None" unfolding body using p by (rule parse_nondecimal_none)
    have "parse_decimal body = Some (round_double False v)"
      using body d45 inf v by (simp add: parse_decimal_def)
    moreover have "body \<noteq> []" using body by simp
    ultimately have "to_number body = round_double False v"
      by (simp add: to_number_def t nd)
    with False show ?thesis by simp
  qed
qed

lemma to_number_digits_then:
  assumes ip: "list_all is_digit ip" "ip \<noteq> []" and c: "c = 46 \<or> c = 101"
    and body: "body = ip @ c # rest"
    and l: "is_digit (last body)"
    and v: "parse_unsigned_decimal body = Some v"
  shows "to_number ((if neg then [45] else []) @ body) = round_double neg v"
proof -
  obtain d ip' where ip': "ip = d # ip'" using ip(2) by (cases ip) simp_all
  with ip(1) have d: "is_digit d" and rest: "list_all is_digit ip'" by simp_all
  show ?thesis
  proof (cases ip')
    case Nil
    with ip' body have "body = d # c # rest" by simp
    moreover have "is_digit c \<or> c = 46 \<or> c = 101" using c by simp
    ultimately show ?thesis using d l v by (intro to_number_signed_decimal)
  next
    case (Cons p ip'')
    with ip' body have "body = d # p # (ip'' @ c # rest)" by simp
    moreover have "is_digit p \<or> p = 46 \<or> p = 101" using rest Cons by simp
    ultimately show ?thesis using d l v by (intro to_number_signed_decimal)
  qed
qed

lemma padded_digits_props:
  "list_all is_digit (padded_digits 4 n)" "5 \<le> length (padded_digits 4 n)"
  "digits_val (padded_digits 4 n) = n"
proof -
  have z: "list_all is_digit (replicate j 48)" for j by (induction j) (simp_all add: is_digit_def)
  show "list_all is_digit (padded_digits 4 n)"
    using digits_of_all_digits [of n] z by (simp add: padded_digits_def Let_def)
  show "5 \<le> length (padded_digits 4 n)"
    by (simp add: padded_digits_def Let_def)
  show "digits_val (padded_digits 4 n) = n"
    by (simp add: padded_digits_def Let_def digits_val_zeros digits_val_digits_of)
qed

lemma toFixed4_small_text:
  assumes "\<not> 10 ^ 21 \<le> m"
  shows "toFixed 4 (Finite s m) =
     (if s \<and> m \<noteq> 0 then [45] else []) @
     take (length (padded_digits 4 (nat \<lfloor>m * 10 ^ 4 + 1 / 2\<rfloor>)) - 4)
       (padded_digits 4 (nat \<lfloor>m * 10 ^ 4 + 1 / 2\<rfloor>)) @
     46 # drop (length (padded_digits 4 (nat \<lfloor>m * 10 ^ 4 + 1 / 2\<rfloor>)) - 4)
       (padded_digits 4 (nat \<lfloor>m * 10 ^ 4 + 1 / 2\<rfloor>))"
  using assms by (simp add: toFixed_def padded_digits_def Let_def)

lemma to_number_fixed:
  assumes ds: "list_all is_digit ds" "5 \<le> length ds"
  shows "to_number ((if neg then [45] else []) @ take (length ds - 4) ds @ 46 # drop (length ds - 4) ds)
     = round_double neg (of_nat (digits_val ds) / 10 ^ 4)"
proof -
  let ?ip = "take (length ds - 4) ds" and ?fp = "drop (length ds - 4) ds"
  have ipfp: "?ip @ ?fp = ds" by simp
  have ip: "list_all is_digit ?ip" "?ip \<noteq> []"
    using ds by (auto simp: list_all_iff dest: in_set_takeD)
  have fp: "list_all is_digit ?fp" "length ?fp = 4"
    using ds by (auto simp: list_all_iff dest: in_set_dropD)
  from fp(2) have fpne: "?fp \<noteq> []" by auto
  have "last (?ip @ 46 # ?fp) = last ?fp" using fpne by simp
  moreover have "last ?fp \<in> set ?fp" using fpne by (rule last_in_set)
  ultimately have l: "is_digit (last (?ip @ 46 # ?fp))" using fp(1) by (simp add: list_all_iff)
  have "parse_unsigned_decimal (?ip @ 46 # ?fp @ []) =
      Some (of_nat (digits_val (?ip @ ?fp)) * 10 powi (0 - int (length ?fp)))"
    using ip fp(1) parse_exponent_Nil by (intro parse_unsigned_decimal_point) simp_all
  then have v: "parse_unsigned_decimal (?ip @ 46 # ?fp) = Some (of_nat (digits_val ds) / 10 ^ 4)"
    unfolding ipfp fp(2) by (simp add: power_int_def field_simps)
  show ?thesis
    using ip l v by (intro to_number_digits_then [where c = 46 and rest = "?fp"]) simp_all
qed

lemma toFixed4_small:
  assumes "0 \<le> m" "\<not> 10 ^ 21 \<le> m"
  shows "to_number (toFixed 4 (Finite s m)) =
     round_double (s \<and> m \<noteq> 0) (of_int \<lfloor>m * 10 ^ 4 + 1 / 2\<rfloor> / 10 ^ 4)"
proof -
  let ?n = "nat \<lfloor>m * 10 ^ 4 + 1 / 2\<rfloor>"
  have "0 \<le> \<lfloor>m * 10 ^ 4 + 1 / 2\<rfloor>" using assms(1) by simp
  then have n: "(of_nat ?n :: rat) = of_int \<lfloor>m * 10 ^ 4 + 1 / 2\<rfloor>" by simp
  show ?thesis
    unfolding toFixed4_small_text [OF assms(2)]
    using to_number_fixed [where ds = "padded_digits 4 ?n" and neg = "s \<and> m \<noteq> 0",
        OF padded_digits_props(1,2)]
    by (simp only: padded_digits_props(3) n)
qed

section \<open>Reading back the exponent notation\<close>

lemma round_double_sign:
  "round_double s q = Finite s r \<Longrightarrow> round_double t q = Finite t r"
  by (simp add: round_double_def Let_def split: if_splits)

lemma find_shortest_converts_back:
  assumes "of_nat (nat \<lfloor>x\<rfloor>) = x" and "round_double False x = Finite False x"
    and "find_shortest x p k fuel = (c, k')"
  shows "round_double False (of_nat c * 10 ^ (p - k')) = Finite False x"
  using assms(3)
proof (induction fuel arbitrary: k)
  case 0
  then have "c = nat \<lfloor>x\<rfloor>" "k' = p" by simp_all
  then show ?case using assms(1,2) by simp
next
  case (Suc fuel)
  then show ?case
    by (auto simp: Let_def split: if_splits)
qed

lemma takeWhile_zeros: "takeWhile (\<lambda>c. c = (48::nat)) xs = replicate (length (takeWhile (\<lambda>c. c = 48) xs)) 48"
  by (induction xs) simp_all

lemma strip_trailing_zeros_props:
  assumes "list_all is_digit ds0" "ds0 \<noteq> []"
  shows "list_all is_digit (strip_trailing_zeros ds0)"
    and "strip_trailing_zeros ds0 \<noteq> []"
    and "length (strip_trailing_zeros ds0) \<le> length ds0"
    and "digits_val (strip_trailing_zeros ds0) *
           10 ^ (length ds0 - length (strip_trailing_zeros ds0)) = digits_val ds0"
proof -
  define r where "r = rev (dropWhile (\<lambda>c. c = 48) (rev ds0))"
  define j where "j = length (takeWhile (\<lambda>c. c = (48::nat)) (rev ds0))"
  have "rev ds0 = takeWhile (\<lambda>c. c = 48) (rev ds0) @ dropWhile (\<lambda>c. c = 48) (rev ds0)" by simp
  then have "rev ds0 = replicate j 48 @ rev r"
    using takeWhile_zeros [of "rev ds0"] by (simp add: r_def j_def)
  then have "rev (rev ds0) = rev (replicate j 48 @ rev r)" by simp
  then have split: "ds0 = r @ replicate j 48" by simp
  have len: "length ds0 = length r + j" using split by (metis length_append length_replicate)
  have rd: "list_all is_digit r" using assms(1) split by (metis list_all_append)
  have val: "digits_val ds0 = digits_val r * 10 ^ j"
    using split digits_val_append_zeros [of r j] by simp
  have st: "strip_trailing_zeros ds0 = (if r = [] then [48] else r)"
    by (simp add: strip_trailing_zeros_def r_def Let_def)
  show "list_all is_digit (strip_trailing_zeros ds0)"
    using rd by (simp add: st is_digit_def)
  show "strip_trailing_zeros ds0 \<noteq> []" by (simp add: st)
  have jpos: "r = [] \<Longrightarrow> 1 \<le> j" using assms(2) len by (cases j) simp_all
  show "length (strip_trailing_zeros ds0) \<le> length ds0"
    using len jpos by (auto simp: st)
  show "digits_val (strip_trailing_zeros ds0) *
           10 ^ (length ds0 - length (strip_trailing_zeros ds0)) = digits_val ds0"
  proof (cases "r = []")
    case True
    then show ?thesis using val by (simp add: st digits_val_Nil digits_val_single)
  next
    case False
    then show ?thesis using val len by (simp add: st)
  qed
qed

text \<open>
  A significand written as \<open>d.ddd\<close> or \<open>d\<close>, then \<open>e+\<close> and an exponent,
  converts to the significand's digits times the power of ten that puts the point after
  the first digit.
\<close>

lemma to_number_exponent_notation:
  assumes ds: "list_all is_digit ds" "ds \<noteq> []"
  shows "to_number ((if neg then [45] else []) @
           (if length ds = 1 then ds else hd ds # 46 # tl ds) @ [101, 43] @ digits_of e) =
         round_double neg (of_nat (digits_val ds) * 10 powi (int e - int (length ds - 1)))"
proof -
  obtain d rest where dr: "ds = d # rest" using ds(2) by (cases ds) simp_all
  with ds(1) have d: "is_digit d" and rest: "list_all is_digit rest" by simp_all
  have ex: "list_all is_digit (digits_of e)" "digits_of e \<noteq> []"
    by (rule digits_of_all_digits, rule digits_of_nonempty)
  have pe: "parse_exponent (101 # 43 # digits_of e) = Some (int e)"
    using parse_exponent_plus [OF ex] by (simp add: digits_val_digits_of)
  have lastd: "is_digit (last (digits_of e))"
    using ex by (metis last_in_set list_all_iff)
  show ?thesis
  proof (cases rest)
    case Nil
    let ?body = "[d] @ 101 # 43 # digits_of e"
    have "parse_unsigned_decimal ?body = Some (of_nat (digits_val [d]) * 10 powi (int e))"
      using d pe by (intro parse_unsigned_decimal_no_point) simp_all
    moreover have "is_digit (last ?body)" using lastd ex(2) by simp
    ultimately have "to_number ((if neg then [45] else []) @ ?body) =
        round_double neg (of_nat (digits_val [d]) * 10 powi (int e))"
      using d by (intro to_number_digits_then [where ip = "[d]" and c = 101
            and rest = "43 # digits_of e"]) simp_all
    then show ?thesis using dr Nil by simp
  next
    case (Cons d2 rest2)
    let ?body = "[d] @ 46 # rest @ 101 # 43 # digits_of e"
    have "parse_unsigned_decimal ?body =
        Some (of_nat (digits_val ([d] @ rest)) * 10 powi (int e - int (length rest)))"
      using d rest pe by (intro parse_unsigned_decimal_point) (simp_all add: not_digit_chars)
    moreover have "is_digit (last ?body)" using lastd ex(2) by simp
    ultimately have "to_number ((if neg then [45] else []) @ ?body) =
        round_double neg (of_nat (digits_val ([d] @ rest)) * 10 powi (int e - int (length rest)))"
      using d by (intro to_number_digits_then [where ip = "[d]" and c = 46
            and rest = "rest @ 101 # 43 # digits_of e"]) simp_all
    then show ?thesis using dr Cons by simp
  qed
qed

lemma to_number_to_string_large:
  assumes "of_nat (nat \<lfloor>x\<rfloor>) = x" and "round_double False x = Finite False x"
  shows "to_number ((if neg then [45] else []) @ to_string_large x) = Finite neg x"
proof -
  define p where "p = length (digits_of (nat \<lfloor>x\<rfloor>))"
  obtain c k where ck: "find_shortest x p (Suc 0) (p - Suc 0) = (c, k)"
    by (cases "find_shortest x p (Suc 0) (p - Suc 0)")
  define ds0 where "ds0 = digits_of c"
  define ds where "ds = strip_trailing_zeros ds0"
  define e where "e = (p - k) + length ds0 - 1"
  have ds0: "list_all is_digit ds0" "ds0 \<noteq> []"
    by (simp_all add: ds0_def digits_of_all_digits digits_of_nonempty)
  note st = strip_trailing_zeros_props [OF ds0, folded ds_def]
  have shape: "to_string_large x =
      (if length ds = 1 then ds else hd ds # 46 # tl ds) @ [101, 43] @ digits_of e"
    by (simp add: to_string_large_def Let_def ck ds_def ds0_def e_def flip: p_def)
  have len1: "1 \<le> length ds" using st(2) by (cases ds) simp_all
  have len0: "1 \<le> length ds0" using ds0(2) by (cases ds0) simp_all
  have "int e - int (length ds - 1) = int ((p - k) + (length ds0 - length ds))"
    using st(3) len1 len0 by (simp add: e_def)
  then have "(10::rat) powi (int e - int (length ds - 1)) = 10 ^ ((p - k) + (length ds0 - length ds))"
    by (simp only: power_int_of_nat)
  then have "of_nat (digits_val ds) * (10::rat) powi (int e - int (length ds - 1)) =
      of_nat (digits_val ds * 10 ^ (length ds0 - length ds)) * 10 ^ (p - k)"
    by (simp add: power_add)
  also have "\<dots> = of_nat c * 10 ^ (p - k)"
    unfolding st(4) by (simp add: ds0_def digits_val_digits_of)
  finally have v: "of_nat (digits_val ds) * (10::rat) powi (int e - int (length ds - 1)) =
      of_nat c * 10 ^ (p - k)" .
  have "round_double False (of_nat c * 10 ^ (p - k)) = Finite False x"
    using assms ck by (rule find_shortest_converts_back)
  then have "round_double neg (of_nat c * 10 ^ (p - k)) = Finite neg x"
    by (rule round_double_sign)
  then show ?thesis
    unfolding shape to_number_exponent_notation [OF st(1,2)] v .
qed

lemma large_double_integer:
  assumes "is_double (Finite s m)" "2 ^ 52 \<le> m"
  shows "of_nat (nat \<lfloor>m\<rfloor>) = m"
proof -
  from assms(1) have eq: "round_double s m = Finite s m" by (simp add: is_double_def)
  have mpos: "0 < m" using assms(2) by (rule less_le_trans [rotated]) simp
  define e0 where "e0 = ilog2 m"
  from ilog2_bounds [OF mpos] have b: "2 powi e0 \<le> m" "m < 2 powi (e0 + 1)"
    by (simp_all add: e0_def)
  have "(2::rat) powi 52 \<le> m" using assms(2) by (simp add: power_int_def)
  with b(2) have "(2::rat) powi 52 < 2 powi (e0 + 1)" by simp
  then have "52 < e0 + 1" by (simp only: powi_less_iff)
  then have e52: "52 \<le> e0" by simp
  then have mx: "max e0 (- 1022) = e0" by simp
  define n where "n = round_half_even (m / 2 powi (e0 - 52))"
  from eq have m: "m = of_int n * 2 powi (e0 - 52)"
    unfolding round_double_exp [OF b] Let_def mx n_def by (simp split: if_splits)
  have "(2::rat) powi (e0 - 52) = of_int (2 ^ nat (e0 - 52))"
    using e52 by (simp add: power_int_def)
  with m have "m = of_int (n * 2 ^ nat (e0 - 52))" by simp
  then obtain z :: int where z: "m = of_int z" by blast
  with mpos have "0 \<le> z" by simp
  then show ?thesis unfolding z by simp
qed

lemma toFixed4_large:
  assumes "is_double (Finite s m)" "10 ^ 21 \<le> m"
  shows "to_number (toFixed 4 (Finite s m)) = Finite s m"
    and "spec_round4 (Finite s m) = Finite s m"
proof -
  have big: "2 ^ 52 \<le> m" using assms(2) by (rule order_trans [rotated]) simp
  have int: "of_nat (nat \<lfloor>m\<rfloor>) = m" using assms(1) big by (rule large_double_integer)
  have rd: "round_double t m = Finite t m" for t using assms(1) by (rule round_double_idem)
  have m0: "m \<noteq> 0" using assms(2) by auto
  have "toFixed 4 (Finite s m) = (if s then [45] else []) @ to_string_large m"
    using assms(2) m0 by (simp add: toFixed_def)
  then show "to_number (toFixed 4 (Finite s m)) = Finite s m"
    using to_number_to_string_large [OF int rd, of s] by simp
  define z where "z = int (nat \<lfloor>m\<rfloor>)"
  have mz: "m = of_int z" unfolding z_def using int by (simp only: of_int_of_nat_eq)
  have "\<lfloor>m * 10 ^ 4 + 1 / 2\<rfloor> = z * 10 ^ 4"
    unfolding mz by (rule floor_unique) simp_all
  then have "(of_int \<lfloor>m * 10 ^ 4 + 1 / 2\<rfloor> :: rat) / 10 ^ 4 = m"
    unfolding mz by simp
  then show "spec_round4 (Finite s m) = Finite s m"
    by (simp add: spec_round4_def rd)
qed

lemma special_texts:
  "to_number (toFixed 4 NaN) = NaN" "to_number (toFixed 4 (Infinity s)) = Infinity s"
  by (cases s; simp add: toFixed_def parse_defs)+

text \<open>
  What \<open>calcCPL\<close> does to a value, writing it with four decimals and reading the text
  back, is rounding to four decimal places.
\<close>

lemma toFixed4_is_round4:
  assumes "is_double x"
  shows "same_number (to_number (toFixed 4 x)) (spec_round4 x)"
proof (cases x)
  case NaN
  then show ?thesis by (simp add: special_texts same_number_def spec_round4_def)
next
  case (Infinity s)
  then show ?thesis by (simp add: special_texts same_number_def spec_round4_def)
next
  case (Finite s m)
  with assms have m: "0 \<le> m" by (simp add: is_double_def)
  show ?thesis
  proof (cases "10 ^ 21 \<le> m")
    case True
    with assms Finite show ?thesis by (simp add: toFixed4_large same_number_def)
  next
    case False
    show ?thesis
    proof (cases "m = 0")
      case True
      have half: "\<lfloor>(1::rat) / 2\<rfloor> = 0" by (rule floor_unique) simp_all
      from toFixed4_small [OF m False, of s] True half
      have "to_number (toFixed 4 (Finite s m)) = Finite False 0"
        by (simp add: round_double_def)
      moreover have "spec_round4 (Finite s m) = Finite s 0"
        using True half by (simp add: spec_round4_def round_double_def)
      ultimately show ?thesis using Finite by (auto simp: same_number_def)
    next
      case nz: False
      then show ?thesis
        using Finite by (simp add: toFixed4_small [OF m False] spec_round4_def same_number_def)
    qed
  qed
qed

section \<open>The arithmetic stays within binary64\<close>

lemma is_double_num: "is_double (num i)"
  unfolding num_def by (rule round_double_is_double) simp

lemma is_double_js_div:
  assumes "is_double x" "is_double y"
  shows "is_double (js_div x y)"
proof (cases x; cases y)
  fix s m t n
  assume xy: "x = Finite s m" "y = Finite t n"
  show ?thesis
  proof (cases "n = 0")
    case True
    then show ?thesis using xy by (simp add: is_double_def)
  next
    case False
    from assms xy have "0 \<le> m / n" by (simp add: is_double_def)
    then show ?thesis using xy False by (simp add: round_double_is_double)
  qed
qed (use assms in \<open>simp_all add: is_double_def round_double_def\<close>)

lemma is_double_js_mul:
  assumes "is_double x" "is_double y"
  shows "is_double (js_mul x y)"
proof (cases x; cases y)
  fix s m t n
  assume xy: "x = Finite s m" "y = Finite t n"
  with assms have "0 \<le> m * n" by (simp add: is_double_def)
  then show ?thesis using xy by (simp add: round_double_is_double)
qed (use assms in \<open>simp_all add: is_double_def\<close>)





section \<open>No trash and no ROI\<close>

lemma js_div_one: "is_double x \<Longrightarrow> js_div x (Finite False 1) = x"
  by (cases x) (simp_all add: round_double_idem)

lemma round_double_finite:
  assumes "0 \<le> q" "q < 2 powi 1023"
  shows "js_isFinite (round_double s q)"
proof (cases "q = 0")
  case True
  then show ?thesis by (simp add: round_double_def)
next
  case False
  with assms have qpos: "0 < q" by simp
  define e0 where "e0 = ilog2 q"
  define e where "e = max e0 (- 1022)"
  define u :: rat where "u = 2 powi (e - 52)"
  define n where "n = round_half_even (q / u)"
  from ilog2_bounds [OF qpos] have b: "2 powi e0 \<le> q" "q < 2 powi (e0 + 1)"
    by (simp_all add: e0_def)
  have upos: "0 < u" by (simp add: u_def)
  from b(1) assms(2) have "(2::rat) powi e0 < 2 powi 1023" by simp
  then have "e0 < 1023" by (simp only: powi_less_iff)
  then have e_le: "e \<le> 1022" and e0_le: "e0 \<le> e" by (simp_all add: e_def)
  have "q / u < 2 powi (e0 + 1) / u" using b(2) upos by (simp add: divide_strict_right_mono)
  also have "\<dots> = 2 powi (e0 + 1 - (e - 52))" unfolding u_def by (rule powi_2_diff)
  also have "\<dots> \<le> 2 powi 53"
  proof -
    have "e0 + 1 - (e - 52) \<le> 53" using e0_le by simp
    then show ?thesis by (simp only: powi_le_iff)
  qed
  also have "\<dots> = of_int (2 ^ 53)" by (simp add: power_int_def)
  finally have "q / u < of_int (2 ^ 53)" .
  then have "\<lfloor>q / u\<rfloor> < 2 ^ 53" by (simp only: floor_less_iff)
  with round_half_even_bounds [of "q / u"] have "n \<le> 2 ^ 53" unfolding n_def by linarith
  then have "(of_int n :: rat) \<le> of_int (2 ^ 53)" by (simp only: of_int_le_iff)
  then have "of_int n \<le> (2::rat) powi 53" by (simp add: power_int_def)
  then have "of_int n * u \<le> 2 powi 53 * u" using upos by (simp add: mult_right_mono)
  also have "\<dots> = 2 powi (e + 1)" unfolding u_def by (rule powi_2_add_eq) simp
  also have "\<dots> \<le> 2 powi 1023"
  proof -
    have "e + 1 \<le> 1023" using e_le by simp
    then show ?thesis by (simp only: powi_le_iff)
  qed
  also have "\<dots> < 2 ^ 1024" by (simp add: power_int_def)
  finally have "\<not> 2 ^ 1024 \<le> of_int n * u" by simp
  then show ?thesis
    unfolding round_double_exp [OF b] Let_def n_def u_def e_def by simp
qed

lemma js_isNaN_iff: "js_isNaN x \<longleftrightarrow> x = NaN"
  by (cases x) simp_all

lemma js_eq_refl: "\<not> js_isNaN x \<Longrightarrow> js_eq x x"
  by (cases x) simp_all

lemma same_number_not_NaN: "same_number x y \<Longrightarrow> \<not> js_isNaN y \<Longrightarrow> \<not> js_isNaN x"
  by (auto simp: same_number_def)

lemma spec_round4_not_NaN: "\<not> js_isNaN x \<Longrightarrow> \<not> js_isNaN (spec_round4 x)"
  by (cases x) (simp_all add: spec_round4_def, metis js_isNaN.elims(2) round_double_not_NaN)

text \<open>
  C6: with trash \<open>0\<close> and ROI \<open>0\<close> the two outputs of \<open>calcCPL\<close> are one and the
  same value, for every payout and approve; and for a finite payout and approve that value
  is not NaN, so that the comparison \<open>==\<close> of the two outputs is true.
\<close>

theorem zero_trash_zero_roi:
  assumes "is_double p" "is_double a"
  shows "leadPrice (calcCPL \<lparr>payout = Some p, approve = Some a,
                             trash = Some (num 0), roi = Some (num 0)\<rparr>) =
         breakeven (calcCPL \<lparr>payout = Some p, approve = Some a,
                             trash = Some (num 0), roi = Some (num 0)\<rparr>)
       \<and> (js_isFinite p \<and> js_isFinite a \<longrightarrow>
            js_eq (leadPrice (calcCPL \<lparr>payout = Some p, approve = Some a,
                                       trash = Some (num 0), roi = Some (num 0)\<rparr>))
                  (breakeven (calcCPL \<lparr>payout = Some p, approve = Some a,
                                       trash = Some (num 0), roi = Some (num 0)\<rparr>)))"
proof -
  define X where "X = js_mul p (js_div a (num 100))"
  have dX: "is_double X" unfolding X_def
    by (intro is_double_js_mul is_double_js_div is_double_num assms)
  have one: "js_add (num 1) (js_div (num 0) (num 100)) = Finite False 1"
    by (simp add: num_0 num_1 num_100 ex_0_100 ex_1_0 del: js_add.simps js_div.simps)
  have code: "calcCPL \<lparr>payout = Some p, approve = Some a,
                       trash = Some (num 0), roi = Some (num 0)\<rparr> =
      \<lparr>breakeven = to_number (toFixed 4 X), leadPrice = to_number (toFixed 4 X)\<rparr>"
    by (simp add: calcCPL_def operand_def with_default_def Let_def one js_div_one [OF dX]
        flip: X_def del: js_add.simps js_div.simps js_mul.simps)
  have "js_eq (to_number (toFixed 4 X)) (to_number (toFixed 4 X))"
    if fin: "js_isFinite p" "js_isFinite a"
  proof -
    obtain s m where p: "p = Finite s m" using fin(1) by (cases p) simp_all
    obtain t n where a: "a = Finite t n" using fin(2) by (cases a) simp_all
    from assms(2) a have n: "0 \<le> n" "round_double t n = Finite t n" by (simp_all add: is_double_def)
    have "n < 2 ^ 1024"
    proof (cases "n = 0")
      case True
      then show ?thesis by simp
    next
      case False
      with n(2) show ?thesis by (simp add: round_double_def Let_def split: if_splits)
    qed
    then have "n / 100 < 2 ^ 1024 / 100" by (simp add: divide_strict_right_mono)
    also have "\<dots> < 2 powi 1023" by (simp add: power_int_def)
    finally have "js_isFinite (round_double t (n / 100))"
      using n(1) by (intro round_double_finite) simp_all
    then obtain t' n' where A: "js_div a (num 100) = Finite t' n'"
      unfolding a num_100 by (cases "round_double t (n / 100)") simp_all
    have "X = round_double (s \<noteq> t') (m * n')" unfolding X_def A p by simp
    then have "\<not> js_isNaN X"
      using round_double_not_NaN [of "s \<noteq> t'" "m * n'"] by (simp only: js_isNaN_iff) simp
    then have "\<not> js_isNaN (to_number (toFixed 4 X))"
      using toFixed4_is_round4 [OF dX] same_number_not_NaN spec_round4_not_NaN by blast
    then show ?thesis by (rule js_eq_refl)
  qed
  then show ?thesis unfolding code by simp
qed

theorem zero_trash_zero_roi_witness:
  "is_double (num 20) \<and> is_double (num 35) \<and> js_isFinite (num 20) \<and> js_isFinite (num 35)
   \<and> leadPrice (calcCPL \<lparr>payout = Some (num 20), approve = Some (num 35),
                             trash = Some (num 0), roi = Some (num 0)\<rparr>) =
       breakeven (calcCPL \<lparr>payout = Some (num 20), approve = Some (num 35),
                             trash = Some (num 0), roi = Some (num 0)\<rparr>)
   \<and> js_eq (leadPrice (calcCPL \<lparr>payout = Some (num 20), approve = Some (num 35),
                                  trash = Some (num 0), roi = Some (num 0)\<rparr>))
            (breakeven (calcCPL \<lparr>payout = Some (num 20), approve = Some (num 35),
                                  trash = Some (num 0), roi = Some (num 0)\<rparr>))"
proof -
  have h: "is_double (num 20)" "is_double (num 35)" by (rule is_double_num)+
  have f: "js_isFinite (num 20)" "js_isFinite (num 35)" by (simp_all add: num_20 num_35)
  from zero_trash_zero_roi [OF h] h f show ?thesis by blast
qed

section \<open>Exact arithmetic and binary64 arithmetic differ on a tie\<close>











section \<open>The wizard and the one-line mode on the example\<close>

lemma wizard_value_20: "wizard_value (ascii ''20'') = Finite False 20"
  "wizard_value (ascii ''20.0'') = Finite False 20" "wizard_value (ascii ''20,0'') = Finite False 20"
  by (simp_all add: wizard_value_def parse_defs round_double_exp [where e = 4] round_eval)

lemma wizard_value_35: "wizard_value (ascii ''35'') = Finite False 35"
  "wizard_value (ascii ''35.0'') = Finite False 35" "wizard_value (ascii ''35,0'') = Finite False 35"
  by (simp_all add: wizard_value_def parse_defs round_double_exp [where e = 5] round_eval)

lemma wizard_value_30: "wizard_value (ascii ''30'') = Finite False 30"
  "wizard_value (ascii ''30.0'') = Finite False 30" "wizard_value (ascii ''30,0'') = Finite False 30"
  by (simp_all add: wizard_value_def parse_defs round_double_exp [where e = 4] round_eval)

lemma wizard_value_50: "wizard_value (ascii ''50'') = Finite False 50"
  "wizard_value (ascii ''50.0'') = Finite False 50" "wizard_value (ascii ''50,0'') = Finite False 50"
  by (simp_all add: wizard_value_def parse_defs round_double_exp [where e = 5] round_eval)

lemma wizard_value_abc: "wizard_value (ascii ''abc'') = NaN"
  by (simp add: wizard_value_def parse_defs)

lemma wizard_value_Infinity: "wizard_value (ascii ''Infinity'') = Infinity False"
  by (simp add: wizard_value_def parse_defs)

lemma calc_args_example:
  "calc_args (ascii ''20 35 30 50'') =
     [Finite False 20, Finite False 35, Finite False 30, Finite False 50]"
proof -
  have "split_ws (trim (ascii ''20 35 30 50'')) = [ascii ''20'', ascii ''35'', ascii ''30'', ascii ''50'']"
    by (simp add: split_ws_def trim_def ascii_def is_ws_def)
  moreover have "to_number (ascii ''20'') = Finite False 20"
    by (simp add: parse_defs round_double_exp [where e = 4] round_eval)
  moreover have "to_number (ascii ''35'') = Finite False 35"
    by (simp add: parse_defs round_double_exp [where e = 5] round_eval)
  moreover have "to_number (ascii ''30'') = Finite False 30"
    by (simp add: parse_defs round_double_exp [where e = 4] round_eval)
  moreover have "to_number (ascii ''50'') = Finite False 50"
    by (simp add: parse_defs round_double_exp [where e = 5] round_eval)
  ultimately show ?thesis by (simp add: calc_args_def)
qed

lemma calc_handler_example:
  "calc_handler (ascii ''20 35 30 50'') =
     [CalcResult (Finite False (6062520638384793 / 1125899906842624)) (Finite False 50)
        (Finite False (8083285791185935 / 2251799813685248))]"
  by (simp add: calc_handler_def calc_args_example calcCPL_20_35_30_50)

lemma wizard_run_example:
  assumes "wizard_value t1 = Finite False 20" "wizard_value t2 = Finite False 35"
    "wizard_value t3 = Finite False 30" "wizard_value t4 = Finite False 50"
  shows "run c [Lead, Submit t1, Submit t2, Submit t3, Submit t4] \<sigma> =
     (\<sigma>(c := None),
      [AskPayout, AskApprove, AskTrash, AskRoi,
       WizardDone (Finite False (6062520638384793 / 1125899906842624)) (Finite False 50)
         (Finite False (8083285791185935 / 2251799813685248))])"
  using assms
  by (simp add: lead_handler_def wizard_step_def empty_data_def calcCPL_20_35_30_50)

lemma wizard_step_no_session: "\<sigma> c = None \<Longrightarrow> wizard_step c t \<sigma> = (\<sigma>, [])"
  by (simp add: wizard_step_def)

lemma message_handler_plain_text:
  assumes "t \<noteq> []" "\<not> starts_with_slash t" "\<not> is_menu_label t"
  shows "message_handler c (Some t) \<sigma> = wizard_step c t \<sigma>"
    and "message_handler_plain c (Some t) \<sigma> = wizard_step c t \<sigma>"
  using assms by (simp_all add: message_handler_def message_handler_plain_def is_menu_label_def)

lemma example_texts_plain:
  "t \<in> {ascii ''20'', ascii ''35'', ascii ''30'', ascii ''50''} \<Longrightarrow>
     t \<noteq> [] \<and> \<not> starts_with_slash t \<and> \<not> is_menu_label t"
  by (auto simp: ascii_def starts_with_slash_def is_menu_label_def label_calculator_def
      label_channel_def label_manager_def label_ads_def)

lemma message_run_example:
  "run c [Lead, Message (Some (ascii ''20'')), Message (Some (ascii ''35'')),
          MessagePlain (Some (ascii ''30'')), MessagePlain (Some (ascii ''50''))] \<sigma> =
   run c [Lead, Submit (ascii ''20''), Submit (ascii ''35''), Submit (ascii ''30''),
          Submit (ascii ''50'')] \<sigma>"
  using example_texts_plain [of "ascii ''20''"] example_texts_plain [of "ascii ''35''"]
    example_texts_plain [of "ascii ''30''"] example_texts_plain [of "ascii ''50''"]
  by (simp add: message_handler_plain_text)

text \<open>
  C2: from any store, starting the wizard in a chat and answering 20, 35, 30 and 50 ends
  with the result that \<open>/calc 20 35 30 50\<close> gives, 5.3846 and 3.5897 with the ROI 50;
  the answers may be written with a decimal point or a decimal comma, and may come
  through either message handler. Afterwards the chat has no session, and a further answer
  does nothing and sends nothing.
\<close>

theorem wizard_matches_one_line_mode:
  "run c [Lead, Submit (ascii ''20''), Submit (ascii ''35''), Submit (ascii ''30''),
          Submit (ascii ''50'')] \<sigma> =
     (\<sigma>(c := None),
      [AskPayout, AskApprove, AskTrash, AskRoi,
       WizardDone (to_number (ascii ''5.3846'')) (num 50) (to_number (ascii ''3.5897''))])
   \<and> run c [Lead, Submit (ascii ''20.0''), Submit (ascii ''35.0''), Submit (ascii ''30.0''),
          Submit (ascii ''50.0'')] \<sigma> =
     run c [Lead, Submit (ascii ''20''), Submit (ascii ''35''), Submit (ascii ''30''),
          Submit (ascii ''50'')] \<sigma>
   \<and> run c [Lead, Submit (ascii ''20,0''), Submit (ascii ''35,0''), Submit (ascii ''30,0''),
          Submit (ascii ''50,0'')] \<sigma> =
     run c [Lead, Submit (ascii ''20''), Submit (ascii ''35''), Submit (ascii ''30''),
          Submit (ascii ''50'')] \<sigma>
   \<and> run c [Lead, Message (Some (ascii ''20'')), Message (Some (ascii ''35'')),
          MessagePlain (Some (ascii ''30'')), MessagePlain (Some (ascii ''50''))] \<sigma> =
     run c [Lead, Submit (ascii ''20''), Submit (ascii ''35''), Submit (ascii ''30''),
          Submit (ascii ''50'')] \<sigma>
   \<and> calc_handler (ascii ''20 35 30 50'') =
        [CalcResult (to_number (ascii ''5.3846'')) (num 50) (to_number (ascii ''3.5897''))]
   \<and> (\<forall>t. wizard_step c t (\<sigma>(c := None)) = (\<sigma>(c := None), []))"
  by (simp add: wizard_run_example wizard_value_20 wizard_value_35 wizard_value_30
      wizard_value_50 calc_handler_example ex_breakeven ex_leadPrice num_50
      wizard_step_no_session message_run_example del: run.simps)

lemma wizard_step_nan:
  "\<sigma> c = Some s \<Longrightarrow> js_isNaN (wizard_value t) \<Longrightarrow> wizard_step c t \<sigma> = (\<sigma>, [SendNumber])"
  by (simp add: wizard_step_def)

lemma wizard_step_accepts:
  "\<sigma> c = Some s \<Longrightarrow> \<not> js_isNaN (wizard_value t) \<Longrightarrow> snd (wizard_step c t \<sigma>) \<noteq> [SendNumber]"
  by (simp add: wizard_step_def Let_def)

lemma calc_handler_refuses_iff:
  assumes "3 \<le> length (calc_args m)"
  shows "calc_handler m = [ArgsMustBeNumbers] \<longleftrightarrow> list_ex js_isNaN (take 4 (calc_args m))"
proof -
  obtain a0 a1 a2 rest where args: "calc_args m = a0 # a1 # a2 # rest"
  proof (cases "calc_args m")
    case Nil
    with assms show ?thesis by simp
  next
    case c1: (Cons a0 r1)
    show ?thesis
    proof (cases r1)
      case Nil
      with c1 assms show ?thesis by simp
    next
      case c2: (Cons a1 r2)
      show ?thesis
      proof (cases r2)
        case Nil
        with c1 c2 assms show ?thesis by simp
      next
        case (Cons a2 rest)
        with c1 c2 that show ?thesis by simp
      qed
    qed
  qed
  show ?thesis
  proof (cases rest)
    case Nil
    with args show ?thesis by (simp add: calc_handler_def Let_def num_0)
  next
    case (Cons a3 rest')
    with args show ?thesis by (simp add: calc_handler_def Let_def)
  qed
qed

text \<open>
  C3, as the code has it: with a session, an answer is refused (the store is unchanged and
  the bot asks for a number) exactly when its conversion is NaN; and a \<open>/calc\<close> with
  at least three pieces is refused for its arguments exactly when one of the first four
  pieces converts to NaN. Finiteness is not looked at.
\<close>

theorem rejected_iff_nan:
  "(\<sigma> c = Some s \<longrightarrow>
      (wizard_step c t \<sigma> = (\<sigma>, [SendNumber]) \<longleftrightarrow> js_isNaN (wizard_value t)))
   \<and> (3 \<le> length (calc_args m) \<longrightarrow>
      (calc_handler m = [ArgsMustBeNumbers] \<longleftrightarrow> list_ex js_isNaN (take 4 (calc_args m))))"
proof (intro conjI impI)
  assume h: "\<sigma> c = Some s"
  show "wizard_step c t \<sigma> = (\<sigma>, [SendNumber]) \<longleftrightarrow> js_isNaN (wizard_value t)"
  proof
    assume eq: "wizard_step c t \<sigma> = (\<sigma>, [SendNumber])"
    show "js_isNaN (wizard_value t)"
    proof (rule ccontr)
      assume "\<not> js_isNaN (wizard_value t)"
      from wizard_step_accepts [of \<sigma> c s t, OF h this] eq show False by simp
    qed
  next
    assume "js_isNaN (wizard_value t)"
    with h show "wizard_step c t \<sigma> = (\<sigma>, [SendNumber])" by (rule wizard_step_nan)
  qed
next
  assume "3 \<le> length (calc_args m)"
  then show "calc_handler m = [ArgsMustBeNumbers] \<longleftrightarrow> list_ex js_isNaN (take 4 (calc_args m))"
    by (rule calc_handler_refuses_iff)
qed

lemma calc_args_Infinity:
  "calc_args (ascii ''Infinity 35 30'') = [Infinity False, Finite False 35, Finite False 30]"
proof -
  have "split_ws (trim (ascii ''Infinity 35 30'')) = [ascii ''Infinity'', ascii ''35'', ascii ''30'']"
    by (simp add: split_ws_def trim_def ascii_def is_ws_def)
  moreover have "to_number (ascii ''Infinity'') = Infinity False"
    by (simp add: parse_defs)
  moreover have "to_number (ascii ''35'') = Finite False 35"
    by (simp add: parse_defs round_double_exp [where e = 5] round_eval)
  moreover have "to_number (ascii ''30'') = Finite False 30"
    by (simp add: parse_defs round_double_exp [where e = 4] round_eval)
  ultimately show ?thesis by (simp add: calc_args_def)
qed

lemma ex_Infinity_text: "to_number (toFixed 4 (Infinity False)) = Infinity False"
  by (simp add: toFixed_def parse_defs)

lemma js_infinity_simps:
  "js_div (Infinity False) (Finite False m) = Infinity False"
  "m \<noteq> 0 \<Longrightarrow> js_mul (Infinity False) (Finite False m) = Infinity False"
  by simp_all

text \<open>
  C3 as stated fails: \<open>Infinity\<close> is not a finite number, but the wizard stores it as
  the payout and moves to the next step, and the one-line mode computes with it.
\<close>

theorem infinity_accepted_counterexample:
  "\<not> js_isFinite (wizard_value (ascii ''Infinity''))
   \<and> wizard_step 7 (ascii ''Infinity'') (no_sessions(7 \<mapsto> \<lparr>step = ''payout'', data = empty_data\<rparr>)) =
       (no_sessions(7 \<mapsto> \<lparr>step = ''approve'', data = empty_data\<lparr>payout := Some (Infinity False)\<rparr>\<rparr>),
        [AskApprove])
   \<and> \<not> list_all js_isFinite (calc_args (ascii ''Infinity 35 30''))
   \<and> calc_handler (ascii ''Infinity 35 30'') =
       [CalcResult (Infinity False) (Finite False 0) (Infinity False)]"
  by (simp add: wizard_value_Infinity wizard_step_def calc_args_Infinity calc_handler_def
      calcCPL_def operand_def with_default_def num_0 num_1 num_100 ex_A ex_T ex_1T ex_0_100 ex_1_0
      ex_Infinity_text js_infinity_simps Let_def
      del: js_add.simps js_div.simps js_mul.simps)

lemma calc_args_abc:
  "calc_args (ascii ''20 abc 30'') = [Finite False 20, NaN, Finite False 30]"
proof -
  have "split_ws (trim (ascii ''20 abc 30'')) = [ascii ''20'', ascii ''abc'', ascii ''30'']"
    by (simp add: split_ws_def trim_def ascii_def is_ws_def)
  moreover have "to_number (ascii ''abc'') = NaN"
    by (simp add: parse_defs)
  moreover have "to_number (ascii ''20'') = Finite False 20"
    by (simp add: parse_defs round_double_exp [where e = 4] round_eval)
  moreover have "to_number (ascii ''30'') = Finite False 30"
    by (simp add: parse_defs round_double_exp [where e = 4] round_eval)
  ultimately show ?thesis by (simp add: calc_args_def)
qed

text \<open>
  The refusal criterion at concrete inputs: \<open>abc\<close> is refused, \<open>Infinity\<close> is not.
\<close>

theorem rejected_iff_nan_witness:
  "wizard_step 7 (ascii ''abc'') (no_sessions(7 \<mapsto> \<lparr>step = ''payout'', data = empty_data\<rparr>)) =
     (no_sessions(7 \<mapsto> \<lparr>step = ''payout'', data = empty_data\<rparr>), [SendNumber])
   \<and> wizard_step 7 (ascii ''Infinity'') (no_sessions(7 \<mapsto> \<lparr>step = ''payout'', data = empty_data\<rparr>)) \<noteq>
     (no_sessions(7 \<mapsto> \<lparr>step = ''payout'', data = empty_data\<rparr>), [SendNumber])
   \<and> calc_handler (ascii ''20 abc 30'') = [ArgsMustBeNumbers]
   \<and> calc_handler (ascii ''Infinity 35 30'') \<noteq> [ArgsMustBeNumbers]"
  using rejected_iff_nan [of "no_sessions(7 \<mapsto> \<lparr>step = ''payout'', data = empty_data\<rparr>)" 7
      "\<lparr>step = ''payout'', data = empty_data\<rparr>" "ascii ''abc''" "ascii ''20 abc 30''"]
    rejected_iff_nan [of "no_sessions(7 \<mapsto> \<lparr>step = ''payout'', data = empty_data\<rparr>)" 7
      "\<lparr>step = ''payout'', data = empty_data\<rparr>" "ascii ''Infinity''" "ascii ''Infinity 35 30''"]
  by (simp add: wizard_value_abc wizard_value_Infinity calc_args_abc calc_args_Infinity)

section \<open>Independence of conversations\<close>

lemma run_Cons_fst: "fst (run c (e # es) \<sigma>) = fst (run c es (fst (handle c e \<sigma>)))"
  by (simp split: prod.splits)

lemma run_Cons_snd:
  "snd (run c (e # es) \<sigma>) = snd (handle c e \<sigma>) @ snd (run c es (fst (handle c e \<sigma>)))"
  by (simp split: prod.splits)

lemma handle_other_chat: "c1 \<noteq> c2 \<Longrightarrow> fst (handle c1 e \<sigma>) c2 = \<sigma> c2"
  by (cases e)
     (auto simp: lead_handler_def wizard_step_def message_handler_def message_handler_plain_def
        Let_def split: option.splits)

lemma handle_local:
  "\<sigma>' c = \<sigma> c \<Longrightarrow>
     snd (handle c e \<sigma>') = snd (handle c e \<sigma>) \<and> fst (handle c e \<sigma>') c = fst (handle c e \<sigma>) c"
  by (cases e)
     (auto simp: lead_handler_def wizard_step_def message_handler_def message_handler_plain_def
        Let_def split: option.splits)

lemma run_other_chat: "c1 \<noteq> c2 \<Longrightarrow> fst (run c1 es \<sigma>) c2 = \<sigma> c2"
proof (induction es arbitrary: \<sigma>)
  case Nil
  then show ?case by simp
next
  case (Cons e es)
  have "fst (run c1 (e # es) \<sigma>) c2 = fst (handle c1 e \<sigma>) c2"
    unfolding run_Cons_fst using Cons.IH Cons.prems by blast
  moreover have "fst (handle c1 e \<sigma>) c2 = \<sigma> c2" using Cons.prems by (rule handle_other_chat)
  ultimately show ?case by (rule trans)
qed

lemma run_local:
  "\<sigma>' c = \<sigma> c \<Longrightarrow>
     snd (run c es \<sigma>') = snd (run c es \<sigma>) \<and> fst (run c es \<sigma>') c = fst (run c es \<sigma>) c"
proof (induction es arbitrary: \<sigma> \<sigma>')
  case Nil
  then show ?case by simp
next
  case (Cons e es)
  note step = handle_local [of \<sigma>' c \<sigma> e, OF Cons.prems]
  from step have "fst (handle c e \<sigma>') c = fst (handle c e \<sigma>) c" by simp
  note rest = Cons.IH [of "fst (handle c e \<sigma>')" "fst (handle c e \<sigma>)", OF this]
  show ?case unfolding run_Cons_fst run_Cons_snd using step rest by simp
qed

text \<open>
  C8: events addressed to one chat leave the session of every other chat as it was, and
  neither the replies to the first chat nor its final session depend on what the session of
  the other chat holds.
\<close>

theorem conversations_isolated:
  assumes "c1 \<noteq> c2"
  shows "fst (run c1 es \<sigma>) c2 = \<sigma> c2 \<and>
         (\<forall>x. snd (run c1 es (\<sigma>(c2 := x))) = snd (run c1 es \<sigma>) \<and>
              fst (run c1 es (\<sigma>(c2 := x))) c1 = fst (run c1 es \<sigma>) c1)"
proof -
  have "(\<sigma>(c2 := x)) c1 = \<sigma> c1" for x using assms by simp
  then have "snd (run c1 es (\<sigma>(c2 := x))) = snd (run c1 es \<sigma>) \<and>
      fst (run c1 es (\<sigma>(c2 := x))) c1 = fst (run c1 es \<sigma>) c1" for x
    by (rule run_local)
  moreover have "fst (run c1 es \<sigma>) c2 = \<sigma> c2" using assms by (rule run_other_chat)
  ultimately show ?thesis by blast
qed

section \<open>The session invariant\<close>

lemma wizard_step_other: "c' \<noteq> c \<Longrightarrow> fst (wizard_step c t \<sigma>) c' = \<sigma> c'"
  by (auto simp: wizard_step_def Let_def split: option.splits)

lemma wizard_step_same_ok:
  assumes "\<sigma> c = Some s0" and "session_ok s0" and "fst (wizard_step c t \<sigma>) c = Some s"
  shows "session_ok s"
proof (cases "js_isNaN (wizard_value t)")
  case True
  then show ?thesis using assms by (simp add: wizard_step_def)
next
  case False
  then have nf: "numeric_field (Some (wizard_value t))" by (simp add: numeric_field_def)
  from assms(2) consider "step s0 = ''payout''" | "step s0 = ''approve''" | "step s0 = ''trash''"
    | "step s0 = ''roi''"
    by (auto simp: session_ok_def Let_def split: if_splits)
  then show ?thesis
  proof cases
    case 1
    then show ?thesis using assms False nf
      by (auto simp: wizard_step_def Let_def session_ok_def)
  next
    case 2
    then show ?thesis using assms False nf
      by (auto simp: wizard_step_def Let_def session_ok_def)
  next
    case 3
    then show ?thesis using assms False nf
      by (auto simp: wizard_step_def Let_def session_ok_def)
  next
    case 4
    then show ?thesis using assms False nf
      by (auto simp: wizard_step_def Let_def session_ok_def)
  qed
qed

lemma wizard_step_preserves_ok:
  assumes "\<forall>c s. \<sigma> c = Some s \<longrightarrow> session_ok s"
  shows "\<forall>c' s. fst (wizard_step c t \<sigma>) c' = Some s \<longrightarrow> session_ok s"
proof (intro allI impI)
  fix c' s
  assume h: "fst (wizard_step c t \<sigma>) c' = Some s"
  show "session_ok s"
  proof (cases "c' = c")
    case False
    then show ?thesis using h assms by (simp add: wizard_step_other)
  next
    case True
    show ?thesis
    proof (cases "\<sigma> c")
      case None
      then show ?thesis using h True by (simp add: wizard_step_def)
    next
      case (Some s0)
      with assms have "session_ok s0" by blast
      with Some h True show ?thesis using wizard_step_same_ok by blast
    qed
  qed
qed

lemma handle_preserves_ok:
  assumes "\<forall>c s. \<sigma> c = Some s \<longrightarrow> session_ok s"
  shows "\<forall>c' s. fst (handle c e \<sigma>) c' = Some s \<longrightarrow> session_ok s"
proof (cases e)
  case Lead
  then show ?thesis using assms
    by (auto simp: lead_handler_def session_ok_def empty_data_def)
next
  case (Submit t)
  then show ?thesis using wizard_step_preserves_ok [OF assms] by simp
next
  case (Message m)
  then show ?thesis using wizard_step_preserves_ok [OF assms] assms
    by (auto simp: message_handler_def split: option.splits)
next
  case (MessagePlain m)
  then show ?thesis using wizard_step_preserves_ok [OF assms] assms
    by (auto simp: message_handler_plain_def split: option.splits)
next
  case (Calc m)
  then show ?thesis using assms by simp
qed

lemma reachable_ok: "reachable \<sigma> \<Longrightarrow> \<forall>c s. \<sigma> c = Some s \<longrightarrow> session_ok s"
proof (induction rule: reachable.induct)
  case reachable_init
  then show ?case by (simp add: no_sessions_def)
next
  case (reachable_step \<sigma> c e)
  from reachable_step.IH show ?case by (rule handle_preserves_ok)
qed

lemma wizard_step_no_state_error:
  assumes "\<forall>c s. \<sigma> c = Some s \<longrightarrow> session_ok s"
  shows "StateError \<notin> set (snd (wizard_step c t \<sigma>))"
proof (cases "\<sigma> c")
  case None
  then show ?thesis by (simp add: wizard_step_def)
next
  case (Some s0)
  with assms have "session_ok s0" by blast
  then have "step s0 = ''payout'' \<or> step s0 = ''approve'' \<or> step s0 = ''trash'' \<or> step s0 = ''roi''"
    by (auto simp: session_ok_def Let_def split: if_splits)
  then show ?thesis using Some by (auto simp: wizard_step_def Let_def)
qed

lemma calc_handler_no_state_error: "StateError \<notin> set (calc_handler m)"
  by (simp add: calc_handler_def Let_def)

lemma handle_no_state_error:
  assumes "\<forall>c s. \<sigma> c = Some s \<longrightarrow> session_ok s"
  shows "StateError \<notin> set (snd (handle c e \<sigma>))"
proof (cases e)
  case Lead
  then show ?thesis by (simp add: lead_handler_def)
next
  case (Submit t)
  then show ?thesis using wizard_step_no_state_error [OF assms] by simp
next
  case (Message m)
  then show ?thesis using wizard_step_no_state_error [OF assms]
    by (auto simp: message_handler_def split: option.splits)
next
  case (MessagePlain m)
  then show ?thesis using wizard_step_no_state_error [OF assms]
    by (auto simp: message_handler_plain_def split: option.splits)
next
  case (Calc m)
  then show ?thesis using calc_handler_no_state_error by simp
qed

lemma session_ok_roi_complete:
  "session_ok s \<Longrightarrow> step s = ''roi'' \<Longrightarrow> \<not> js_isNaN v \<Longrightarrow> complete_data ((data s)\<lparr>roi := Some v\<rparr>)"
  by (simp add: session_ok_def complete_data_def numeric_field_def Let_def)

text \<open>
  C9: in a reachable store every session is at one of the four steps and holds exactly the
  fields of the earlier steps, all numeric; at the step \<open>roi\<close> the data that
  \<open>wizard_step\<close> passes to \<open>calcCPL\<close>, with the ROI just stored, is complete; and no
  event in any chat is answered by the message of the \<open>default\<close> branch.
\<close>

theorem reachable_sessions_well_formed:
  assumes "reachable \<sigma>"
  shows "(\<forall>c s. \<sigma> c = Some s \<longrightarrow>
            session_ok s \<and>
            (\<forall>v. step s = ''roi'' \<and> \<not> js_isNaN v \<longrightarrow> complete_data ((data s)\<lparr>roi := Some v\<rparr>)))
         \<and> (\<forall>c e. StateError \<notin> set (snd (handle c e \<sigma>)))"
proof -
  note ok = reachable_ok [OF assms]
  show ?thesis using ok handle_no_state_error [OF ok] session_ok_roi_complete by blast
qed

section \<open>Starting the wizard, refusals and the menu\<close>

text \<open>
  C7: after the handler of \<open>/lead\<close> the chat has a session at the step \<open>payout\<close> with
  no field set, whatever the store held for that chat before.
\<close>

theorem lead_handler_resets:
  "fst (lead_handler c \<sigma>) c =
     Some \<lparr>step = ''payout'',
           data = \<lparr>payout = None, approve = None, trash = None, roi = None\<rparr>\<rparr>"
  by (simp add: lead_handler_def empty_data_def)

text \<open>
  C4: with a session in the store, at whatever step, an answer whose conversion is NaN is
  answered by the request for a number, and the store is returned as it was: the same
  session, step and data, under the same chat id.
\<close>

theorem wizard_step_nan_unchanged:
  assumes "\<sigma> c = Some s" and "js_isNaN (wizard_value text)"
  shows "wizard_step c text \<sigma> = (\<sigma>, [SendNumber])"
  using assms by (simp add: wizard_step_def)

theorem wizard_step_nan_unchanged_witness:
  "(no_sessions(7 \<mapsto> \<lparr>step = ''trash'', data = \<lparr>payout = Some (Finite False 20),
        approve = Some (Finite False 35), trash = None, roi = None\<rparr>\<rparr>)) 7 =
     Some \<lparr>step = ''trash'', data = \<lparr>payout = Some (Finite False 20),
        approve = Some (Finite False 35), trash = None, roi = None\<rparr>\<rparr>
   \<and> js_isNaN (wizard_value (ascii ''abc''))
   \<and> wizard_step 7 (ascii ''abc'')
        (no_sessions(7 \<mapsto> \<lparr>step = ''trash'', data = \<lparr>payout = Some (Finite False 20),
           approve = Some (Finite False 35), trash = None, roi = None\<rparr>\<rparr>)) =
       (no_sessions(7 \<mapsto> \<lparr>step = ''trash'', data = \<lparr>payout = Some (Finite False 20),
           approve = Some (Finite False 35), trash = None, roi = None\<rparr>\<rparr>), [SendNumber])"
  using wizard_step_nan_unchanged [of
      "no_sessions(7 \<mapsto> \<lparr>step = ''trash'', data = \<lparr>payout = Some (Finite False 20),
           approve = Some (Finite False 35), trash = None, roi = None\<rparr>\<rparr>)"
      7 "\<lparr>step = ''trash'', data = \<lparr>payout = Some (Finite False 20),
           approve = Some (Finite False 35), trash = None, roi = None\<rparr>\<rparr>" "ascii ''abc''"]
  by (simp add: wizard_value_abc)

lemma labels_not_commands:
  "\<not> starts_with_slash label_calculator" "\<not> starts_with_slash label_channel"
  "\<not> starts_with_slash label_manager" "\<not> starts_with_slash label_ads"
  "label_calculator \<noteq> []" "label_channel \<noteq> []" "label_manager \<noteq> []" "label_ads \<noteq> []"
  by (simp_all add: starts_with_slash_def label_calculator_def label_channel_def
      label_manager_def label_ads_def)

text \<open>
  C10: in \<open>bot.js\<close> a text that starts with a slash or is one of the four menu labels
  never reaches the wizard: the message handler returns the store as it was, with no
  reply for a command and with the menu's reply for a label.
\<close>

theorem message_handler_skips_wizard:
  assumes "starts_with_slash t \<or> is_menu_label t"
  shows "message_handler c (Some t) \<sigma> =
     (\<sigma>, if starts_with_slash t then []
          else if t = label_calculator then [MenuCalculator]
          else if t = label_channel then [MenuChannel]
          else [MenuManager])"
proof (cases "starts_with_slash t")
  case True
  then show ?thesis by (simp add: message_handler_def)
next
  case False
  with assms have "is_menu_label t" by simp
  then consider "t = label_calculator" | "t = label_channel" | "t = label_manager" | "t = label_ads"
    by (auto simp: is_menu_label_def)
  then show ?thesis
  proof cases
    case 1 then show ?thesis by (simp add: message_handler_def labels_not_commands)
  next
    case 2 then show ?thesis by (simp add: message_handler_def labels_not_commands)
  next
    case 3 then show ?thesis by (simp add: message_handler_def labels_not_commands)
  next
    case 4 then show ?thesis by (simp add: message_handler_def labels_not_commands)
  qed
qed

lemma labels_distinct:
  "label_channel \<noteq> label_calculator" "label_manager \<noteq> label_calculator"
  "label_manager \<noteq> label_channel" "label_ads \<noteq> label_calculator"
  "label_ads \<noteq> label_channel" "label_ads \<noteq> label_manager"
  by (simp_all add: label_calculator_def label_channel_def label_manager_def label_ads_def)

lemma slash_lead: "starts_with_slash (ascii ''/lead'')"
  by (simp add: starts_with_slash_def ascii_def)

theorem message_handler_skips_wizard_witness:
  "is_menu_label label_channel \<and> starts_with_slash (ascii ''/lead'')
   \<and> message_handler 7 (Some label_channel)
        (no_sessions(7 \<mapsto> \<lparr>step = ''approve'', data = empty_data\<lparr>payout := Some (Finite False 20)\<rparr>\<rparr>)) =
       (no_sessions(7 \<mapsto> \<lparr>step = ''approve'', data = empty_data\<lparr>payout := Some (Finite False 20)\<rparr>\<rparr>),
        [MenuChannel])
   \<and> message_handler 7 (Some (ascii ''/lead''))
        (no_sessions(7 \<mapsto> \<lparr>step = ''approve'', data = empty_data\<lparr>payout := Some (Finite False 20)\<rparr>\<rparr>)) =
       (no_sessions(7 \<mapsto> \<lparr>step = ''approve'', data = empty_data\<lparr>payout := Some (Finite False 20)\<rparr>\<rparr>),
        [])"
  using message_handler_skips_wizard [of label_channel 7
      "no_sessions(7 \<mapsto> \<lparr>step = ''approve'', data = empty_data\<lparr>payout := Some (Finite False 20)\<rparr>\<rparr>)"]
    message_handler_skips_wizard [of "ascii ''/lead''" 7
      "no_sessions(7 \<mapsto> \<lparr>step = ''approve'', data = empty_data\<lparr>payout := Some (Finite False 20)\<rparr>\<rparr>)"]
  by (simp add: is_menu_label_def labels_not_commands labels_distinct slash_lead)

section \<open>The general theorems at concrete inputs\<close>

theorem conversations_isolated_witness:
  "(1::int) \<noteq> 2
   \<and> fst (run 1 [Lead, Submit (ascii ''20'')]
        (no_sessions(2 \<mapsto> \<lparr>step = ''approve'', data = empty_data\<lparr>payout := Some (Finite False 35)\<rparr>\<rparr>))) 2 =
       Some \<lparr>step = ''approve'', data = empty_data\<lparr>payout := Some (Finite False 35)\<rparr>\<rparr>
   \<and> snd (run 1 [Lead, Submit (ascii ''20'')]
        (no_sessions(2 \<mapsto> \<lparr>step = ''approve'', data = empty_data\<lparr>payout := Some (Finite False 35)\<rparr>\<rparr>))) =
     snd (run 1 [Lead, Submit (ascii ''20'')] no_sessions)"
proof -
  let ?s = "\<lparr>step = ''approve'', data = empty_data\<lparr>payout := Some (Finite False 35)\<rparr>\<rparr>"
  have ne: "(1::int) \<noteq> 2" by simp
  note iso = conversations_isolated [OF ne, of "[Lead, Submit (ascii ''20'')]" "no_sessions(2 \<mapsto> ?s)"]
  from iso have other: "fst (run 1 [Lead, Submit (ascii ''20'')] (no_sessions(2 \<mapsto> ?s))) 2 = Some ?s"
    by (simp del: run.simps)
  from iso have "snd (run 1 [Lead, Submit (ascii ''20'')] ((no_sessions(2 \<mapsto> ?s))(2 := None))) =
      snd (run 1 [Lead, Submit (ascii ''20'')] (no_sessions(2 \<mapsto> ?s)))"
    by blast
  moreover have "(no_sessions(2 \<mapsto> ?s))(2 := None) = no_sessions"
    by (simp add: no_sessions_def)
  ultimately have "snd (run 1 [Lead, Submit (ascii ''20'')] (no_sessions(2 \<mapsto> ?s))) =
      snd (run 1 [Lead, Submit (ascii ''20'')] no_sessions)"
    by (simp del: run.simps)
  with ne other show ?thesis by (simp del: run.simps)
qed

lemma reachable_example:
  "reachable (no_sessions(7 \<mapsto> \<lparr>step = ''roi'', data = \<lparr>payout = Some (Finite False 20),
      approve = Some (Finite False 35), trash = Some (Finite False 30), roi = None\<rparr>\<rparr>))"
proof -
  have "reachable (fst (handle 7 (Submit (ascii ''30'')) (fst (handle 7 (Submit (ascii ''35''))
      (fst (handle 7 (Submit (ascii ''20'')) (fst (handle 7 Lead no_sessions))))))))"
    by (intro reachable.intros)
  then show ?thesis
    by (simp add: lead_handler_def wizard_step_def empty_data_def wizard_value_20 wizard_value_35
        wizard_value_30)
qed

theorem reachable_sessions_well_formed_witness:
  "reachable (no_sessions(7 \<mapsto> \<lparr>step = ''roi'', data = \<lparr>payout = Some (Finite False 20),
      approve = Some (Finite False 35), trash = Some (Finite False 30), roi = None\<rparr>\<rparr>))
   \<and> session_ok \<lparr>step = ''roi'', data = \<lparr>payout = Some (Finite False 20),
      approve = Some (Finite False 35), trash = Some (Finite False 30), roi = None\<rparr>\<rparr>
   \<and> \<not> js_isNaN (Finite False 50)
   \<and> complete_data \<lparr>payout = Some (Finite False 20), approve = Some (Finite False 35),
      trash = Some (Finite False 30), roi = Some (Finite False 50)\<rparr>
   \<and> StateError \<notin> set (snd (handle 7 (Submit (ascii ''50''))
        (no_sessions(7 \<mapsto> \<lparr>step = ''roi'', data = \<lparr>payout = Some (Finite False 20),
           approve = Some (Finite False 35), trash = Some (Finite False 30), roi = None\<rparr>\<rparr>))))"
proof -
  let ?s = "\<lparr>step = ''roi'', data = \<lparr>payout = Some (Finite False 20),
      approve = Some (Finite False 35), trash = Some (Finite False 30), roi = None\<rparr>\<rparr>"
  note wf = reachable_sessions_well_formed [OF reachable_example]
  have here: "(no_sessions(7 \<mapsto> ?s)) 7 = Some ?s" by simp
  from wf here have a: "session_ok ?s \<and>
      (\<forall>v. step ?s = ''roi'' \<and> \<not> js_isNaN v \<longrightarrow> complete_data ((data ?s)\<lparr>roi := Some v\<rparr>))"
    by blast
  then have "step ?s = ''roi'' \<and> \<not> js_isNaN (Finite False 50) \<longrightarrow>
      complete_data ((data ?s)\<lparr>roi := Some (Finite False 50)\<rparr>)"
    by blast
  then have b: "complete_data ((data ?s)\<lparr>roi := Some (Finite False 50)\<rparr>)" by simp
  from wf have c: "StateError \<notin> set (snd (handle 7 (Submit (ascii ''50''))
        (no_sessions(7 \<mapsto> ?s))))" by blast
  from a b c reachable_example show ?thesis by simp
qed

end
